theory Spec2Isabelle
  imports Main "HOL-Library.Sublist" "HOL-Library.AList"
begin

section \<open>The file system\<close>

text \<open>
  \<^verbatim>\<open>sdks/python/bundle_server.py\<close> only talks to the file system: it tests whether
  paths exist, creates directories, copies one file and one directory tree, removes
  entries and touches a marker file. The file system is modelled as a tree whose inner
  nodes are directories (association lists from entry names to nodes) and whose leaves are
  regular files carrying their content. The root of the tree is the root of the monorepo,
  that is \<^verbatim>\<open>Path(__file__).parent.parent.parent\<close>. Symbolic links, time stamps and special
  files are not part of the model. The tree carries no permission bits either: the
  definitions up to \<open>main\<close> describe the script for a process that is allowed every
  access it asks for, and the section on modes adds the owner's write permission to every
  operation.
\<close>

type_synonym path = "string list"

datatype node = File string | Dir "(string \<times> node) list"

text \<open>The subclasses of \<^verbatim>\<open>OSError\<close> that the calls of the script can raise.\<close>

datatype error =
    FileNotFoundError
  | FileExistsError
  | NotADirectoryError
  | IsADirectoryError
  | SameFileError
  | PermissionError

text \<open>
  Path resolution walks the components from the root. A missing component is
  \<^verbatim>\<open>ENOENT\<close>, a regular file in the middle of a path is \<^verbatim>\<open>ENOTDIR\<close>. A directory
  denotes the finite map \<^term>\<open>map_of es\<close>: a name is looked up at its first occurrence.
\<close>

fun resolve :: "node \<Rightarrow> path \<Rightarrow> error + node" where
  "resolve n [] = Inr n"
| "resolve (File c) (x # xs) = Inl NotADirectoryError"
| "resolve (Dir es) (x # xs) =
     (case map_of es x of None \<Rightarrow> Inl FileNotFoundError | Some m \<Rightarrow> resolve m xs)"

definition lookup :: "node \<Rightarrow> path \<Rightarrow> node option" where
  "lookup root p = (case resolve root p of Inl e \<Rightarrow> None | Inr n \<Rightarrow> Some n)"

text \<open>\<^verbatim>\<open>Path.exists()\<close> and \<^verbatim>\<open>Path.is_dir()\<close>: both answer \<^verbatim>\<open>False\<close> on any resolution error.\<close>

definition path_exists :: "node \<Rightarrow> path \<Rightarrow> bool" where
  "path_exists root p = (case resolve root p of Inl e \<Rightarrow> False | Inr n \<Rightarrow> True)"

definition is_dir :: "node \<Rightarrow> path \<Rightarrow> bool" where
  "is_dir root p = (case resolve root p of Inr (Dir es) \<Rightarrow> True | _ \<Rightarrow> False)"

text \<open>
  What an observer sees at a path: nothing, a directory, or a regular file with its
  content. Two trees with the same view at every path have the same layout and the same
  file contents; they can differ only in the order in which a directory lists its
  entries.
\<close>

datatype entry = Reg string | Directory

fun kind_of :: "node \<Rightarrow> entry" where
  "kind_of (File c) = Reg c"
| "kind_of (Dir es) = Directory"

definition entry_at :: "node \<Rightarrow> path \<Rightarrow> entry option" where
  "entry_at root p = map_option kind_of (lookup root p)"

text \<open>
  The one primitive that changes the tree: \<open>put p v root\<close> stores the node \<open>v\<close> at \<open>p\<close>
  (or removes the entry when \<open>v\<close> is \<open>None\<close>), provided the parent of \<open>p\<close> is a directory.
  Every operation below checks that before it calls \<open>put\<close>.
\<close>

fun put :: "path \<Rightarrow> node option \<Rightarrow> node \<Rightarrow> node" where
  "put [] v n = n"
| "put (x # xs) v (File c) = File c"
| "put [x] v (Dir es) =
     Dir (case v of None \<Rightarrow> AList.delete x es | Some m \<Rightarrow> AList.update x m es)"
| "put (x # y # ys) v (Dir es) =
     (case map_of es x of
        None \<Rightarrow> Dir es
      | Some m \<Rightarrow> Dir (AList.update x (put (y # ys) v m) es))"

subsection \<open>pathlib\<close>

text \<open>\<^verbatim>\<open>Path.parent\<close> is lexical, and the parent of the anchor is the anchor itself.\<close>

definition parent :: "path \<Rightarrow> path" where
  "parent p = butlast p"

definition name :: "path \<Rightarrow> string" where
  "name p = last p"

text \<open>How a path prints in a message, relative to the root of the model.\<close>

fun str_path :: "path \<Rightarrow> string" where
  "str_path [] = ''.''"
| "str_path [x] = x"
| "str_path (x # y # ys) = x @ ''/'' @ str_path (y # ys)"

text \<open>
  \<^verbatim>\<open>os.mkdir\<close>: \<^verbatim>\<open>EEXIST\<close> when the path resolves, \<^verbatim>\<open>ENOTDIR\<close> or \<^verbatim>\<open>ENOENT\<close> from the walk
  to the parent, otherwise a new empty directory.
\<close>

definition os_mkdir :: "path \<Rightarrow> node \<Rightarrow> error + node" where
  "os_mkdir p root =
     (case resolve root p of
        Inr n \<Rightarrow> Inl FileExistsError
      | Inl e \<Rightarrow>
          if e = FileNotFoundError \<and> p \<noteq> [] \<and> is_dir root (parent p)
          then Inr (put p (Some (Dir [])) root)
          else Inl e)"

text \<open>
  \<^verbatim>\<open>Path.mkdir(parents, exist_ok)\<close>, as pathlib writes it:
  \<^verbatim>\<open>
    try:
        os.mkdir(self, mode)
    except FileNotFoundError:
        if not parents or self.parent == self:
            raise
        self.parent.mkdir(parents=True, exist_ok=True)
        self.mkdir(mode, parents=False, exist_ok=exist_ok)
    except OSError:
        if not exist_ok or not self.is_dir():
            raise
  \<close>
\<close>

function mkdir :: "path \<Rightarrow> bool \<Rightarrow> bool \<Rightarrow> node \<Rightarrow> error + node" where
  "mkdir p parents exist_ok root =
     (case os_mkdir p root of
        Inr root' \<Rightarrow> Inr root'
      | Inl e \<Rightarrow>
          if e = FileNotFoundError then
            (if \<not> parents \<or> parent p = p then Inl e
             else (case mkdir (parent p) True True root of
                     Inl e' \<Rightarrow> Inl e'
                   | Inr root' \<Rightarrow> mkdir p False exist_ok root'))
          else if \<not> exist_ok \<or> \<not> is_dir root p then Inl e
          else Inr root)"
  by pat_completeness auto
termination
proof (relation "measure (\<lambda>(p, parents, exist_ok, root).
        2 * length p + (if parents then 1 else 0))", goal_cases)
  case (2 p parents exist_ok root e)
  then have "p \<noteq> []" by (auto simp: parent_def)
  then show ?case by (cases p) (simp_all add: parent_def)
qed simp_all

declare mkdir.simps [simp del]

text \<open>
  \<^verbatim>\<open>Path.touch()\<close>: an existing entry only gets a new time stamp (\<^verbatim>\<open>os.utime\<close>), whatever
  its kind and content; otherwise \<^verbatim>\<open>os.open(O_CREAT | O_WRONLY)\<close> creates an empty file.
\<close>

definition touch :: "path \<Rightarrow> node \<Rightarrow> error + node" where
  "touch p root =
     (case resolve root p of
        Inr n \<Rightarrow> Inr root
      | Inl e \<Rightarrow>
          if e = FileNotFoundError \<and> p \<noteq> [] \<and> is_dir root (parent p)
          then Inr (put p (Some (File [])) root)
          else Inl e)"

text \<open>\<^verbatim>\<open>Path.unlink()\<close> removes a regular file.\<close>

definition unlink :: "path \<Rightarrow> node \<Rightarrow> error + node" where
  "unlink p root =
     (case resolve root p of
        Inl e \<Rightarrow> Inl e
      | Inr (Dir es) \<Rightarrow> Inl IsADirectoryError
      | Inr (File c) \<Rightarrow> Inr (put p None root))"

text \<open>
  \<^verbatim>\<open>Path.iterdir()\<close> yields the children of a directory, each name once, in the order
  of the listing.
\<close>

definition iterdir :: "path \<Rightarrow> node \<Rightarrow> error + path list" where
  "iterdir p root =
     (case resolve root p of
        Inl e \<Rightarrow> Inl e
      | Inr (File c) \<Rightarrow> Inl NotADirectoryError
      | Inr (Dir es) \<Rightarrow> Inr (map (\<lambda>n. p @ [n]) (remdups (map fst es))))"

subsection \<open>shutil\<close>

text \<open>
  \<^verbatim>\<open>shutil.copyfile\<close> refuses to copy a file onto itself, opens the source for reading
  and then the destination for writing (truncating it). \<^verbatim>\<open>shutil.copy\<close> first redirects
  a destination that is a directory to the entry of the source's base name inside it, and
  after \<^verbatim>\<open>copyfile\<close> it gives the destination the permission bits of the source
  (\<^verbatim>\<open>copymode\<close>): that part is \<open>shutil_copy_m\<close> in the section on modes.
\<close>

definition copyfile :: "path \<Rightarrow> path \<Rightarrow> node \<Rightarrow> error + node" where
  "copyfile src dst root =
     (if path_exists root src \<and> src = dst then Inl SameFileError
      else case resolve root src of
        Inl e \<Rightarrow> Inl e
      | Inr (Dir es) \<Rightarrow> Inl IsADirectoryError
      | Inr (File c) \<Rightarrow>
          (case resolve root dst of
             Inr (Dir es) \<Rightarrow> Inl IsADirectoryError
           | Inr (File c') \<Rightarrow> Inr (put dst (Some (File c)) root)
           | Inl e \<Rightarrow>
               if e = FileNotFoundError \<and> dst \<noteq> [] \<and> is_dir root (parent dst)
               then Inr (put dst (Some (File c)) root)
               else Inl e))"

definition shutil_copy :: "path \<Rightarrow> path \<Rightarrow> node \<Rightarrow> error + node" where
  "shutil_copy src dst root =
     copyfile src (if is_dir root dst then dst @ [name src] else dst) root"

text \<open>
  \<^verbatim>\<open>shutil.rmtree\<close> removes a directory with everything below it, and refuses a path that
  is not a directory. The root of the model stands for a directory that the process cannot
  remove.
\<close>

definition shutil_rmtree :: "path \<Rightarrow> node \<Rightarrow> error + node" where
  "shutil_rmtree p root =
     (case resolve root p of
        Inl e \<Rightarrow> Inl e
      | Inr (File c) \<Rightarrow> Inl NotADirectoryError
      | Inr (Dir es) \<Rightarrow> if p = [] then Inl PermissionError else Inr (put p None root))"

text \<open>
  \<^verbatim>\<open>shutil.copytree\<close> lists the source (\<^verbatim>\<open>os.scandir\<close>), creates the destination with
  \<^verbatim>\<open>os.makedirs(dst)\<close>, which fails when the destination exists, and copies every entry,
  directories recursively. \<open>copy_node\<close> is that recursive copy, and \<open>mkdir\<close> with
  \<open>parents\<close> and without \<open>exist_ok\<close> stands for \<^verbatim>\<open>os.makedirs\<close>. The model takes the
  source as it is when the call starts, which is what \<^verbatim>\<open>shutil\<close> does when the
  destination does not lie inside the source; the two paths of the script are apart.
  Files are copied with \<^verbatim>\<open>copy2\<close> and every directory ends with \<^verbatim>\<open>copystat\<close>, so that the
  copy has the permission bits of the source: that part is \<open>shutil_copytree_m\<close> in the
  section on modes.
\<close>

primrec copy_node :: "node \<Rightarrow> node" where
  "copy_node (File c) = File c"
| "copy_node (Dir es) = Dir (map (map_prod id copy_node) es)"

definition shutil_copytree :: "path \<Rightarrow> path \<Rightarrow> node \<Rightarrow> error + node" where
  "shutil_copytree src dst root =
     (case resolve root src of
        Inl e \<Rightarrow> Inl e
      | Inr (File c) \<Rightarrow> Inl NotADirectoryError
      | Inr (Dir es) \<Rightarrow>
          (case mkdir dst True False root of
             Inl e \<Rightarrow> Inl e
           | Inr root' \<Rightarrow> Inr (put dst (Some (copy_node (Dir es))) root')))"

section \<open>The script\<close>

text \<open>
  The process state: the file system and the two output streams, each a list of the
  lines printed so far.
\<close>

record world =
  fs :: node
  stdout :: "string list"
  stderr :: "string list"

definition print_out :: "string \<Rightarrow> world \<Rightarrow> world" where
  "print_out s w = w\<lparr>stdout := stdout w @ [s]\<rparr>"

definition print_err :: "string \<Rightarrow> world \<Rightarrow> world" where
  "print_err s w = w\<lparr>stderr := stderr w @ [s]\<rparr>"

text \<open>A call either returns a value or raises; both leave a state behind.\<close>

datatype 'a result = Return 'a world | Raise error world

text \<open>
  The paths of lines 19 to 21, 30, 31, 38 and 48. The script lives at
  \<^verbatim>\<open>sdks/python/bundle_server.py\<close> in the monorepo.
\<close>

definition script_file :: path where
  "script_file = [''sdks'', ''python'', ''bundle_server.py'']"

definition script_dir :: path where
  "script_dir = parent script_file"

definition core_dir :: path where
  "core_dir = parent (parent script_dir) @ [''core'']"

definition target_dir :: path where
  "target_dir = script_dir @ [''pmxt''] @ [''_server'']"

definition server_dist :: path where
  "server_dist = core_dir @ [''dist''] @ [''server'']"

definition bundled_server :: path where
  "bundled_server = server_dist @ [''bundled.js'']"

definition bin_dir :: path where
  "bin_dir = core_dir @ [''bin'']"

definition server_target :: path where
  "server_target = target_dir @ [''server'']"

text \<open>
  Lines 59 to 64, the body of the loop for one item and the loop over the items that
  \<^verbatim>\<open>iterdir\<close> listed. A fault in the middle of the loop leaves the tree as it was when
  the fault occurred.
\<close>

definition sweep_item :: "path \<Rightarrow> node \<Rightarrow> error + node" where
  "sweep_item item root =
     (if name item \<noteq> ''bundled.js'' \<and> name item \<noteq> ''__pycache__'' then
        (if is_dir root item then shutil_rmtree item root else unlink item root)
      else Inr root)"

fun sweep :: "path list \<Rightarrow> node \<Rightarrow> error \<times> node + node" where
  "sweep [] root = Inr root"
| "sweep (item # items) root =
     (case sweep_item item root of
        Inl e \<Rightarrow> Inl (e, root)
      | Inr root' \<Rightarrow> sweep items root')"

text \<open>\<^verbatim>\<open>bundle_server()\<close>, lines 15 to 68.\<close>

definition bundle_server :: "world \<Rightarrow> bool result" where
  "bundle_server w =
    (if \<not> path_exists (fs w) core_dir then
       Return False
         (print_err ''This script must be run from the monorepo structure''
           (print_err (''Error: core directory not found at '' @ str_path core_dir) w))
     else if \<not> path_exists (fs w) bundled_server then
       Return False
         (print_err ''Please run 'npm run build && npm run bundle:server' in core/''
           (print_err (''Error: Bundled server not found at '' @ str_path bundled_server) w))
     else if \<not> path_exists (fs w) bin_dir then
       Return False
         (print_err (''Error: bin directory not found at '' @ str_path bin_dir) w)
     else
      (case mkdir target_dir True True (fs w) of
         Inl e \<Rightarrow> Raise e w
       | Inr f1 \<Rightarrow>
      let w1 = print_out (''Copying bundled server from '' @ str_path bundled_server @ ''...'')
                 (w\<lparr>fs := f1\<rparr>) in
      (case mkdir server_target False True f1 of
         Inl e \<Rightarrow> Raise e w1
       | Inr f2 \<Rightarrow>
      (case shutil_copy bundled_server (server_target @ [''bundled.js'']) f2 of
         Inl e \<Rightarrow> Raise e (w1\<lparr>fs := f2\<rparr>)
       | Inr f3 \<Rightarrow>
      let w3 = print_out (''Copying bin from '' @ str_path bin_dir @ '' to ''
                 @ str_path (target_dir @ [''bin'']) @ ''...'') (w1\<lparr>fs := f3\<rparr>) in
      (case (if path_exists f3 (target_dir @ [''bin''])
             then shutil_rmtree (target_dir @ [''bin'']) f3 else Inr f3) of
         Inl e \<Rightarrow> Raise e w3
       | Inr f4 \<Rightarrow>
      (case shutil_copytree bin_dir (target_dir @ [''bin'']) f4 of
         Inl e \<Rightarrow> Raise e (w3\<lparr>fs := f4\<rparr>)
       | Inr f5 \<Rightarrow>
      (case iterdir server_target f5 of
         Inl e \<Rightarrow> Raise e (w3\<lparr>fs := f5\<rparr>)
       | Inr items \<Rightarrow>
      (case sweep items f5 of
         Inl (e, f) \<Rightarrow> Raise e (w3\<lparr>fs := f\<rparr>)
       | Inr f6 \<Rightarrow>
      (case touch (target_dir @ [''__init__.py'']) f6 of
         Inl e \<Rightarrow> Raise e (w3\<lparr>fs := f6\<rparr>)
       | Inr f7 \<Rightarrow> Return True (w3\<lparr>fs := f7\<rparr>))))))))))"

text \<open>
  Lines 71 to 73: the process exits with \<^verbatim>\<open>sys.exit(0 if success else 1)\<close>, or dies of
  the exception that \<^verbatim>\<open>bundle_server\<close> did not catch.
\<close>

datatype exit = SystemExit int | Uncaught error

definition main :: "world \<Rightarrow> exit \<times> world" where
  "main w =
     (case bundle_server w of
        Return success w' \<Rightarrow> (SystemExit (if success then 0 else 1), w')
      | Raise e w' \<Rightarrow> (Uncaught e, w'))"

section \<open>Modes\<close>

text \<open>
  \<^verbatim>\<open>shutil.copy\<close> and \<^verbatim>\<open>shutil.copytree\<close> copy permission bits along with the data, and
  a later call may be refused because of the bits that an earlier call has copied. This
  section repeats the operations and the script with the one bit that decides whether the
  script may change an entry: the owner's write permission. The process owns every entry;
  \<open>read_only\<close> lists the paths of the entries that lack the bit, and \<open>privileged\<close> says
  that the process runs as the superuser, for whom the bit is not checked. Read and search
  permission, group and other bits, the umask and ownership are not modelled: every entry
  can be read, and a new entry is created writable.

  Every operation first does what it does without modes, with the same errors, and is
  then refused with \<^verbatim>\<open>PermissionError\<close> when a directory that it changes, or a file that
  it opens for writing, is read-only. A refused call leaves the tree as it was.
\<close>

record mworld =
  plain :: world
  read_only :: "path list"
  privileged :: bool

datatype 'a outcome = Returns 'a mworld | Raises error mworld

type_synonym mfs = "node \<times> path list"

definition may_write :: "bool \<Rightarrow> path list \<Rightarrow> path \<Rightarrow> bool" where
  "may_write priv ro p \<longleftrightarrow> priv \<or> p \<notin> set ro"

text \<open>
  An entry that is created or removed takes the records at and below its path with it.
\<close>

definition forget :: "path \<Rightarrow> path list \<Rightarrow> path list" where
  "forget p ro = filter (\<lambda>q. \<not> prefix p q) ro"

definition has_entries :: "node \<Rightarrow> path \<Rightarrow> bool" where
  "has_entries root p = (case resolve root p of Inr (Dir (e # es)) \<Rightarrow> True | _ \<Rightarrow> False)"

text \<open>
  Creating an entry (\<^verbatim>\<open>mkdir\<close>, \<^verbatim>\<open>open\<close> with \<^verbatim>\<open>O_CREAT\<close>) and removing one
  (\<^verbatim>\<open>unlink\<close>, \<^verbatim>\<open>rmdir\<close>) write to the directory that holds it. \<open>mkdir_m\<close> is
  \<^verbatim>\<open>Path.mkdir\<close> as above, over \<open>os_mkdir_m\<close>.
\<close>

fun os_mkdir_m :: "bool \<Rightarrow> path \<Rightarrow> mfs \<Rightarrow> error + mfs" where
  "os_mkdir_m priv p (root, ro) =
     (case os_mkdir p root of
        Inl e \<Rightarrow> Inl e
      | Inr root' \<Rightarrow>
          if may_write priv ro (parent p) then Inr (root', forget p ro)
          else Inl PermissionError)"

function mkdir_m :: "bool \<Rightarrow> path \<Rightarrow> bool \<Rightarrow> bool \<Rightarrow> mfs \<Rightarrow> error + mfs" where
  "mkdir_m priv p parents exist_ok s =
     (case os_mkdir_m priv p s of
        Inr s' \<Rightarrow> Inr s'
      | Inl e \<Rightarrow>
          if e = FileNotFoundError then
            (if \<not> parents \<or> parent p = p then Inl e
             else (case mkdir_m priv (parent p) True True s of
                     Inl e' \<Rightarrow> Inl e'
                   | Inr s' \<Rightarrow> mkdir_m priv p False exist_ok s'))
          else if \<not> exist_ok \<or> \<not> is_dir (fst s) p then Inl e
          else Inr s)"
  by pat_completeness auto
termination
proof (relation "measure (\<lambda>(priv, p, parents, exist_ok, s).
        2 * length p + (if parents then 1 else 0))", goal_cases)
  case (2 priv p parents exist_ok s e)
  then have "p \<noteq> []" by (auto simp: parent_def)
  then show ?case by (cases p) (simp_all add: parent_def)
qed simp_all

declare mkdir_m.simps [simp del]

text \<open>
  \<^verbatim>\<open>Path.touch()\<close> on an existing entry is \<^verbatim>\<open>os.utime\<close>, which the owner may always
  call; otherwise the file is created.
\<close>

fun touch_m :: "bool \<Rightarrow> path \<Rightarrow> mfs \<Rightarrow> error + mfs" where
  "touch_m priv p (root, ro) =
     (case touch p root of
        Inl e \<Rightarrow> Inl e
      | Inr root' \<Rightarrow>
          if path_exists root p then Inr (root', ro)
          else if may_write priv ro (parent p) then Inr (root', forget p ro)
          else Inl PermissionError)"

fun unlink_m :: "bool \<Rightarrow> path \<Rightarrow> mfs \<Rightarrow> error + mfs" where
  "unlink_m priv p (root, ro) =
     (case unlink p root of
        Inl e \<Rightarrow> Inl e
      | Inr root' \<Rightarrow>
          if may_write priv ro (parent p) then Inr (root', forget p ro)
          else Inl PermissionError)"

text \<open>
  \<^verbatim>\<open>shutil.rmtree\<close> empties every directory at and below the path and removes the path
  from its parent: the parent must be writable, and so must every directory of the tree
  that has entries. A read-only file, and a read-only directory that is empty, are removed
  like any other. (When the real call is refused it may already have removed a part of
  the tree; the model leaves the tree whole, and no theorem depends on the state that a
  refused \<^verbatim>\<open>rmtree\<close> leaves.)
\<close>

fun shutil_rmtree_m :: "bool \<Rightarrow> path \<Rightarrow> mfs \<Rightarrow> error + mfs" where
  "shutil_rmtree_m priv p (root, ro) =
     (case shutil_rmtree p root of
        Inl e \<Rightarrow> Inl e
      | Inr root' \<Rightarrow>
          if may_write priv ro (parent p) \<and>
             list_all (\<lambda>q. priv \<or> \<not> (prefix p q \<and> has_entries root q)) ro
          then Inr (root', forget p ro)
          else Inl PermissionError)"

text \<open>
  \<^verbatim>\<open>shutil.copyfile\<close> opens the destination for writing: an existing destination must be
  writable itself, a new one is created in its directory. \<^verbatim>\<open>shutil.copy\<close> then calls
  \<^verbatim>\<open>copymode\<close>: the destination is read-only exactly when the source is.
\<close>

fun copyfile_m :: "bool \<Rightarrow> path \<Rightarrow> path \<Rightarrow> mfs \<Rightarrow> error + mfs" where
  "copyfile_m priv src dst (root, ro) =
     (case copyfile src dst root of
        Inl e \<Rightarrow> Inl e
      | Inr root' \<Rightarrow>
          if path_exists root dst then
            (if may_write priv ro dst then Inr (root', ro) else Inl PermissionError)
          else
            (if may_write priv ro (parent dst) then Inr (root', forget dst ro)
             else Inl PermissionError))"

definition copymode :: "path \<Rightarrow> path \<Rightarrow> path list \<Rightarrow> path list" where
  "copymode src dst ro = (if src \<in> set ro then dst # forget dst ro else forget dst ro)"

fun shutil_copy_m :: "bool \<Rightarrow> path \<Rightarrow> path \<Rightarrow> mfs \<Rightarrow> error + mfs" where
  "shutil_copy_m priv src dst (root, ro) =
     (let d = (if is_dir root dst then dst @ [name src] else dst) in
      case copyfile_m priv src d (root, ro) of
        Inl e \<Rightarrow> Inl e
      | Inr (root', ro') \<Rightarrow> Inr (root', copymode src d ro'))"

text \<open>
  \<^verbatim>\<open>shutil.copytree\<close> creates the destination (\<^verbatim>\<open>os.makedirs\<close>), fills it while it is
  still writable, and only then gives every directory the permission bits of its source
  (\<^verbatim>\<open>copystat\<close>); the files have got theirs from \<^verbatim>\<open>copy2\<close>. After the call an entry of
  the copy is read-only exactly when its source is.
\<close>

definition copystat_tree :: "path \<Rightarrow> path \<Rightarrow> path list \<Rightarrow> path list" where
  "copystat_tree src dst ro = map (\<lambda>q. dst @ drop (length src) q) (filter (prefix src) ro)"

fun shutil_copytree_m :: "bool \<Rightarrow> path \<Rightarrow> path \<Rightarrow> mfs \<Rightarrow> error + mfs" where
  "shutil_copytree_m priv src dst (root, ro) =
     (case resolve root src of
        Inl e \<Rightarrow> Inl e
      | Inr (File c) \<Rightarrow> Inl NotADirectoryError
      | Inr (Dir es) \<Rightarrow>
          (case mkdir_m priv dst True False (root, ro) of
             Inl e \<Rightarrow> Inl e
           | Inr (root', ro') \<Rightarrow>
               Inr (put dst (Some (copy_node (Dir es))) root',
                    forget dst ro' @ copystat_tree src dst ro)))"

fun sweep_item_m :: "bool \<Rightarrow> path \<Rightarrow> mfs \<Rightarrow> error + mfs" where
  "sweep_item_m priv item (root, ro) =
     (if name item \<noteq> ''bundled.js'' \<and> name item \<noteq> ''__pycache__'' then
        (if is_dir root item then shutil_rmtree_m priv item (root, ro)
         else unlink_m priv item (root, ro))
      else Inr (root, ro))"

fun sweep_m :: "bool \<Rightarrow> path list \<Rightarrow> mfs \<Rightarrow> error \<times> mfs + mfs" where
  "sweep_m priv [] s = Inr s"
| "sweep_m priv (item # items) s =
     (case sweep_item_m priv item s of
        Inl e \<Rightarrow> Inl (e, s)
      | Inr s' \<Rightarrow> sweep_m priv items s')"

text \<open>
  \<^verbatim>\<open>bundle_server()\<close>, lines 15 to 68, once more: the same calls in the same order, each
  with its check of the write permission. \<open>leave\<close> puts the tree and the modes that a
  call has left into the process state.
\<close>

definition leave :: "mworld \<Rightarrow> world \<Rightarrow> mfs \<Rightarrow> mworld" where
  "leave mw w s = mw\<lparr>plain := w\<lparr>fs := fst s\<rparr>, read_only := snd s\<rparr>"

definition bundle_server_m :: "mworld \<Rightarrow> bool outcome" where
  "bundle_server_m mw =
    (let w = plain mw; priv = privileged mw in
     if \<not> path_exists (fs w) core_dir then
       Returns False (mw\<lparr>plain :=
         print_err ''This script must be run from the monorepo structure''
           (print_err (''Error: core directory not found at '' @ str_path core_dir) w)\<rparr>)
     else if \<not> path_exists (fs w) bundled_server then
       Returns False (mw\<lparr>plain :=
         print_err ''Please run 'npm run build && npm run bundle:server' in core/''
           (print_err (''Error: Bundled server not found at '' @ str_path bundled_server) w)\<rparr>)
     else if \<not> path_exists (fs w) bin_dir then
       Returns False (mw\<lparr>plain :=
         print_err (''Error: bin directory not found at '' @ str_path bin_dir) w\<rparr>)
     else
      (case mkdir_m priv target_dir True True (fs w, read_only mw) of
         Inl e \<Rightarrow> Raises e mw
       | Inr s1 \<Rightarrow>
      let w1 = print_out (''Copying bundled server from '' @ str_path bundled_server @ ''...'') w in
      (case mkdir_m priv server_target False True s1 of
         Inl e \<Rightarrow> Raises e (leave mw w1 s1)
       | Inr s2 \<Rightarrow>
      (case shutil_copy_m priv bundled_server (server_target @ [''bundled.js'']) s2 of
         Inl e \<Rightarrow> Raises e (leave mw w1 s2)
       | Inr s3 \<Rightarrow>
      let w3 = print_out (''Copying bin from '' @ str_path bin_dir @ '' to ''
                 @ str_path (target_dir @ [''bin'']) @ ''...'') w1 in
      (case (if path_exists (fst s3) (target_dir @ [''bin''])
             then shutil_rmtree_m priv (target_dir @ [''bin'']) s3 else Inr s3) of
         Inl e \<Rightarrow> Raises e (leave mw w3 s3)
       | Inr s4 \<Rightarrow>
      (case shutil_copytree_m priv bin_dir (target_dir @ [''bin'']) s4 of
         Inl e \<Rightarrow> Raises e (leave mw w3 s4)
       | Inr s5 \<Rightarrow>
      (case iterdir server_target (fst s5) of
         Inl e \<Rightarrow> Raises e (leave mw w3 s5)
       | Inr items \<Rightarrow>
      (case sweep_m priv items s5 of
         Inl (e, s) \<Rightarrow> Raises e (leave mw w3 s)
       | Inr s6 \<Rightarrow>
      (case touch_m priv (target_dir @ [''__init__.py'']) s6 of
         Inl e \<Rightarrow> Raises e (leave mw w3 s6)
       | Inr s7 \<Rightarrow> Returns True (leave mw w3 s7))))))))))"

text \<open>A state with the given read-only entries, for a process that is not privileged.\<close>

definition with_modes :: "world \<Rightarrow> path list \<Rightarrow> mworld" where
  "with_modes w ro = \<lparr>plain = w, read_only = ro, privileged = False\<rparr>"

section \<open>Views\<close>

text \<open>
  The proofs do not follow the tree but what can be observed of it: a view maps every path
  to what \<open>entry_at\<close> finds there. Each operation of the script acts on the view of the
  tree in a simple way (\<open>v_mkdir\<close>, \<open>v_copy\<close>, ...) and succeeds under a condition
  that the view decides (\<open>ok_mkdir\<close>, \<open>ok_copy\<close>, ...). \<open>graft p sub V\<close> is the view
  \<open>V\<close> with everything at and below \<open>p\<close> replaced by \<open>sub\<close>. \<open>view1\<close> to \<open>view6\<close> and
  \<open>v_bundle\<close> are the views after the successive steps of \<open>bundle_server\<close>, and
  \<open>ok_bundle\<close> collects the conditions under which no step raises. None of these
  definitions models code: they are the vocabulary of the lemmas that follow, which show
  that the operations of the model act on views in this way.
\<close>

type_synonym view = "path \<Rightarrow> entry option"

definition graft :: "path \<Rightarrow> view \<Rightarrow> view \<Rightarrow> view" where
  "graft p sub V = (\<lambda>q. if prefix p q then sub (drop (length p) q) else V q)"

definition absent :: view where
  "absent = (\<lambda>r. None)"

definition leaf :: "string \<Rightarrow> view" where
  "leaf c = (\<lambda>r. if r = [] then Some (Reg c) else None)"

definition empty_dir :: view where
  "empty_dir = (\<lambda>r. if r = [] then Some Directory else None)"

definition ok_mkdir :: "path \<Rightarrow> view \<Rightarrow> bool" where
  "ok_mkdir p V \<longleftrightarrow>
     V p = Some Directory \<or> (V p = None \<and> p \<noteq> [] \<and> V (parent p) = Some Directory)"

definition v_mkdir :: "path \<Rightarrow> view \<Rightarrow> view" where
  "v_mkdir p V = (if V p = None then graft p empty_dir V else V)"

definition ok_mkdirs :: "path \<Rightarrow> view \<Rightarrow> bool" where
  "ok_mkdirs p V \<longleftrightarrow> (\<forall>q. prefix q p \<longrightarrow> V q = None \<or> V q = Some Directory)"

definition v_mkdirs :: "path \<Rightarrow> view \<Rightarrow> view" where
  "v_mkdirs p V = (\<lambda>q. if prefix q p then Some Directory else V q)"

definition ok_touch :: "path \<Rightarrow> view \<Rightarrow> bool" where
  "ok_touch p V \<longleftrightarrow> V p \<noteq> None \<or> (p \<noteq> [] \<and> V (parent p) = Some Directory)"

definition v_touch :: "path \<Rightarrow> view \<Rightarrow> view" where
  "v_touch p V = (if V p = None then graft p (leaf []) V else V)"

definition ok_rm :: "path \<Rightarrow> view \<Rightarrow> bool" where
  "ok_rm p V \<longleftrightarrow> V p = None \<or> (V p = Some Directory \<and> p \<noteq> [])"

definition v_rm :: "path \<Rightarrow> view \<Rightarrow> view" where
  "v_rm p V = (if V p = None then V else graft p absent V)"

definition exempt :: "string \<Rightarrow> bool" where
  "exempt n \<longleftrightarrow> n = ''bundled.js'' \<or> n = ''__pycache__''"

definition v_sweep :: "path \<Rightarrow> view \<Rightarrow> view" where
  "v_sweep d V = (\<lambda>q. if \<exists>n. \<not> exempt n \<and> prefix (d @ [n]) q then None else V q)"

fun content :: "entry option \<Rightarrow> string" where
  "content (Some (Reg c)) = c"
| "content e = []"

definition copy_dst :: "path \<Rightarrow> path \<Rightarrow> view \<Rightarrow> path" where
  "copy_dst src dst V = (if V dst = Some Directory then dst @ [name src] else dst)"

definition ok_copy :: "path \<Rightarrow> path \<Rightarrow> view \<Rightarrow> bool" where
  "ok_copy src dst V \<longleftrightarrow>
     (\<exists>c. V src = Some (Reg c)) \<and> src \<noteq> copy_dst src dst V \<and>
     V (copy_dst src dst V) \<noteq> Some Directory \<and> copy_dst src dst V \<noteq> [] \<and>
     V (parent (copy_dst src dst V)) = Some Directory"

definition v_copy :: "path \<Rightarrow> path \<Rightarrow> view \<Rightarrow> view" where
  "v_copy src dst V = graft (copy_dst src dst V) (leaf (content (V src))) V"

definition v_copytree :: "path \<Rightarrow> path \<Rightarrow> view \<Rightarrow> view" where
  "v_copytree src dst V = graft dst (\<lambda>r. V (src @ r)) V"

definition view1 :: "view \<Rightarrow> view" where
  "view1 V = v_mkdirs target_dir V"

definition view2 :: "view \<Rightarrow> view" where
  "view2 V = v_mkdir server_target (view1 V)"

definition view3 :: "view \<Rightarrow> view" where
  "view3 V = v_copy bundled_server (server_target @ [''bundled.js'']) (view2 V)"

definition view4 :: "view \<Rightarrow> view" where
  "view4 V = v_rm (target_dir @ [''bin'']) (view3 V)"

definition view5 :: "view \<Rightarrow> view" where
  "view5 V = v_copytree bin_dir (target_dir @ [''bin'']) (view4 V)"

definition view6 :: "view \<Rightarrow> view" where
  "view6 V = v_sweep server_target (view5 V)"

definition v_bundle :: "view \<Rightarrow> view" where
  "v_bundle V = v_touch (target_dir @ [''__init__.py'']) (view6 V)"

definition ok_bundle :: "view \<Rightarrow> bool" where
  "ok_bundle V \<longleftrightarrow>
     V core_dir \<noteq> None \<and> V bundled_server \<noteq> None \<and> V bin_dir \<noteq> None \<and>
     ok_mkdirs target_dir V \<and>
     ok_mkdir server_target (view1 V) \<and>
     ok_copy bundled_server (server_target @ [''bundled.js'']) (view2 V) \<and>
     ok_rm (target_dir @ [''bin'']) (view3 V) \<and>
     view4 V bin_dir = Some Directory"

section \<open>Example states\<close>

text \<open>
  Concrete states of the monorepo on which the theorems below are evaluated: a fresh
  checkout with a built core, states in which an input is missing or has the wrong kind,
  and states in which a previous run left entries behind in the target directory. The
  states named \<open>_done\<close> and \<open>_failed\<close> are what \<open>bundle_server\<close> leaves behind.
  The states named \<open>mw_\<close> come with modes: a fresh checkout in which the launcher
  \<^verbatim>\<open>core/bin/pmxt-server\<close> is read-only, and one in which the artifact is.
\<close>

definition core_ok :: node where
  "core_ok = Dir [(''dist'', Dir [(''server'', Dir [(''bundled.js'', File ''js'')])]),
                  (''bin'', Dir [(''pmxt-server'', File ''run'')])]"

definition sdk_with :: "(string \<times> node) list \<Rightarrow> node" where
  "sdk_with extra = Dir [(''python'', Dir ((''bundle_server.py'', File ''py'') # extra))]"

definition world_of :: "node \<Rightarrow> (string \<times> node) list \<Rightarrow> world" where
  "world_of core extra =
     \<lparr>fs = Dir [(''core'', core), (''sdks'', sdk_with extra)], stdout = [], stderr = []\<rparr>"

definition w_fresh :: world where
  "w_fresh = world_of core_ok []"

definition w_no_core :: world where
  "w_no_core = \<lparr>fs = Dir [(''sdks'', sdk_with [])], stdout = [], stderr = []\<rparr>"

definition w_no_artifact :: world where
  "w_no_artifact = world_of (Dir [(''bin'', Dir [(''pmxt-server'', File ''run'')])]) []"

definition w_no_bin :: world where
  "w_no_bin = world_of (Dir [(''dist'', Dir [(''server'', Dir [(''bundled.js'', File ''js'')])])]) []"

definition w_pmxt_file :: world where
  "w_pmxt_file = world_of core_ok [(''pmxt'', File ''text'')]"

definition w_prior :: world where
  "w_prior = world_of core_ok
     [(''pmxt'', Dir [(''_server'', Dir
        [(''server'', Dir [(''old.js'', File ''o''), (''tmp'', Dir [(''t'', File ''t'')]),
                           (''__pycache__'', File ''c''), (''bundled.js'', File ''stale'')]),
         (''bin'', Dir [(''gone'', File ''g'')]),
         (''__init__.py'', File ''x = 1'')])])]"

definition w_odd :: world where
  "w_odd = world_of core_ok
     [(''pmxt'', Dir [(''_server'', Dir
        [(''server'', Dir [(''bundled.js'', Dir []), (''__pycache__'', File ''c'')])])])]"

definition w_artifact_dir :: world where
  "w_artifact_dir = world_of
     (Dir [(''dist'', Dir [(''server'', Dir [(''bundled.js'', Dir [])])]),
           (''bin'', Dir [(''pmxt-server'', File ''run'')])]) []"

definition w_bin_file :: world where
  "w_bin_file = world_of
     (Dir [(''dist'', Dir [(''server'', Dir [(''bundled.js'', File ''js'')])]),
           (''bin'', File ''b'')]) []"

definition progress :: "string list" where
  "progress =
     [''Copying bundled server from core/dist/server/bundled.js...'',
      ''Copying bin from core/bin to sdks/python/pmxt/_server/bin...'']"

definition w_fresh_done :: world where
  "w_fresh_done = (world_of core_ok
     [(''pmxt'', Dir [(''_server'', Dir
        [(''server'', Dir [(''bundled.js'', File ''js'')]),
         (''bin'', Dir [(''pmxt-server'', File ''run'')]),
         (''__init__.py'', File [])])])]) \<lparr>stdout := progress\<rparr>"

definition w_prior_done :: world where
  "w_prior_done = (world_of core_ok
     [(''pmxt'', Dir [(''_server'', Dir
        [(''server'', Dir [(''__pycache__'', File ''c''), (''bundled.js'', File ''js'')]),
         (''__init__.py'', File ''x = 1''),
         (''bin'', Dir [(''pmxt-server'', File ''run'')])])])]) \<lparr>stdout := progress\<rparr>"

definition w_odd_done :: world where
  "w_odd_done = (world_of core_ok
     [(''pmxt'', Dir [(''_server'', Dir
        [(''server'', Dir [(''bundled.js'', Dir [(''bundled.js'', File ''js'')]),
                           (''__pycache__'', File ''c'')]),
         (''bin'', Dir [(''pmxt-server'', File ''run'')]),
         (''__init__.py'', File [])])])]) \<lparr>stdout := progress\<rparr>"

definition w_artifact_dir_failed :: world where
  "w_artifact_dir_failed = (world_of
     (Dir [(''dist'', Dir [(''server'', Dir [(''bundled.js'', Dir [])])]),
           (''bin'', Dir [(''pmxt-server'', File ''run'')])])
     [(''pmxt'', Dir [(''_server'', Dir [(''server'', Dir [])])])])
     \<lparr>stdout := [''Copying bundled server from core/dist/server/bundled.js...'']\<rparr>"

definition w_bin_file_failed :: world where
  "w_bin_file_failed = (world_of
     (Dir [(''dist'', Dir [(''server'', Dir [(''bundled.js'', File ''js'')])]),
           (''bin'', File ''b'')])
     [(''pmxt'', Dir [(''_server'', Dir [(''server'', Dir [(''bundled.js'', File ''js'')])])])])
     \<lparr>stdout := progress\<rparr>"

definition w_target_bin_file :: world where
  "w_target_bin_file = world_of core_ok
     [(''pmxt'', Dir [(''_server'', Dir [(''bin'', File ''b'')])])]"

definition w_target_bin_file_failed :: world where
  "w_target_bin_file_failed = (world_of core_ok
     [(''pmxt'', Dir [(''_server'', Dir
        [(''bin'', File ''b''),
         (''server'', Dir [(''bundled.js'', File ''js'')])])])]) \<lparr>stdout := progress\<rparr>"

definition mw_ro_launcher :: mworld where
  "mw_ro_launcher = with_modes w_fresh [bin_dir @ [''pmxt-server'']]"

definition mw_ro_launcher_done :: mworld where
  "mw_ro_launcher_done =
     with_modes w_fresh_done
       [bin_dir @ [''pmxt-server''], target_dir @ [''bin'', ''pmxt-server'']]"

definition mw_ro_artifact :: mworld where
  "mw_ro_artifact = with_modes w_fresh [bundled_server]"

definition mw_ro_artifact_done :: mworld where
  "mw_ro_artifact_done =
     with_modes w_fresh_done [server_target @ [''bundled.js''], bundled_server]"

definition mw_ro_artifact_refused :: mworld where
  "mw_ro_artifact_refused =
     with_modes
       (w_fresh_done\<lparr>stdout := progress @
          [''Copying bundled server from core/dist/server/bundled.js...'']\<rparr>)
       [server_target @ [''bundled.js''], bundled_server]"

section \<open>Views of the tree\<close>

lemma lookup_Nil [simp]: "lookup n [] = Some n"
  by (simp add: lookup_def)

lemma lookup_File_Cons [simp]: "lookup (File c) (x # xs) = None"
  by (simp add: lookup_def)

lemma lookup_Dir_Cons [simp]:
  "lookup (Dir es) (x # xs) = (case map_of es x of None \<Rightarrow> None | Some m \<Rightarrow> lookup m xs)"
  by (simp add: lookup_def split: option.splits)

lemma entry_at_Nil [simp]: "entry_at n [] = Some (kind_of n)"
  by (simp add: entry_at_def)

lemma entry_at_File_Cons [simp]: "entry_at (File c) (x # xs) = None"
  by (simp add: entry_at_def)

lemma entry_at_Dir_Cons [simp]:
  "entry_at (Dir es) (x # xs) = (case map_of es x of None \<Rightarrow> None | Some m \<Rightarrow> entry_at m xs)"
  by (simp add: entry_at_def split: option.splits)

lemma kind_of_Directory: "kind_of n = Directory \<longleftrightarrow> (\<exists>es. n = Dir es)"
  by (cases n) simp_all

lemma kind_of_Reg: "kind_of n = Reg c \<longleftrightarrow> n = File c"
  by (cases n) simp_all

lemma resolve_error: "resolve root p = Inl e \<Longrightarrow> e = FileNotFoundError \<or> e = NotADirectoryError"
  by (induction root p rule: resolve.induct) (auto split: option.splits)

lemma entry_at_None: "entry_at root p = None \<longleftrightarrow> (\<exists>e. resolve root p = Inl e)"
  by (auto simp: entry_at_def lookup_def split: sum.splits)

lemma entry_at_Reg: "entry_at root p = Some (Reg c) \<longleftrightarrow> resolve root p = Inr (File c)"
  by (auto simp: entry_at_def lookup_def kind_of_Reg split: sum.splits)

lemma entry_at_Directory: "entry_at root p = Some Directory \<longleftrightarrow> (\<exists>es. resolve root p = Inr (Dir es))"
  by (auto simp: entry_at_def lookup_def kind_of_Directory split: sum.splits)

lemma path_exists_iff: "path_exists root p \<longleftrightarrow> entry_at root p \<noteq> None"
  by (auto simp: path_exists_def entry_at_def lookup_def split: sum.splits)

lemma is_dir_iff: "is_dir root p \<longleftrightarrow> entry_at root p = Some Directory"
  by (auto simp: is_dir_def entry_at_def lookup_def kind_of_Directory split: sum.splits node.splits)

lemma lookup_append:
  "lookup root (p @ r) = (case lookup root p of None \<Rightarrow> None | Some n \<Rightarrow> lookup n r)"
proof (induction root p rule: resolve.induct)
  case (1 n)
  then show ?case by simp
next
  case (2 c x xs)
  then show ?case by simp
next
  case (3 es x xs)
  then show ?case by (simp split: option.splits)
qed

lemma entry_at_append:
  "entry_at root (p @ r) = (case lookup root p of None \<Rightarrow> None | Some n \<Rightarrow> entry_at n r)"
  by (simp add: entry_at_def lookup_append split: option.splits)

lemma entry_at_None_append: "entry_at root p = None \<Longrightarrow> entry_at root (p @ r) = None"
  by (simp add: entry_at_append) (simp add: entry_at_def)

lemma entry_at_Reg_append:
  "entry_at root p = Some (Reg c) \<Longrightarrow>
   entry_at root (p @ r) = (if r = [] then Some (Reg c) else None)"
proof -
  assume a: "entry_at root p = Some (Reg c)"
  then have "lookup root p = Some (File c)"
    by (auto simp: entry_at_def kind_of_Reg)
  then show ?thesis using a by (cases r) (simp_all add: entry_at_append)
qed

lemma entry_at_parent_Directory:
  assumes "entry_at root (p @ r) \<noteq> None" and "r \<noteq> []"
  shows "entry_at root p = Some Directory"
proof (cases "entry_at root p")
  case None
  then show ?thesis using assms(1) by (simp add: entry_at_None_append)
next
  case (Some a)
  then show ?thesis using assms by (cases a) (auto simp: entry_at_Reg_append)
qed

lemma resolve_FileNotFound:
  assumes "entry_at root p = None" and "p \<noteq> []" and "entry_at root (butlast p) = Some Directory"
  shows "resolve root p = Inl FileNotFoundError"
  using assms
proof (induction root p rule: resolve.induct)
  case (1 n)
  then show ?case by simp
next
  case (2 c x xs)
  then show ?case by (cases xs) simp_all
next
  case (3 es x xs)
  then show ?case by (cases xs) (auto split: option.splits)
qed

lemma resolve_NotADirectory:
  "resolve root p = Inl NotADirectoryError \<longleftrightarrow>
   (\<exists>q c. strict_prefix q p \<and> entry_at root q = Some (Reg c))"
proof (induction root p rule: resolve.induct)
  case (1 n)
  then show ?case by simp
next
  case (2 c x xs)
  have "strict_prefix [] (x # xs) \<and> entry_at (File c) [] = Some (Reg c)" by simp
  then have "\<exists>q c'. strict_prefix q (x # xs) \<and> entry_at (File c) q = Some (Reg c')"
    by (intro exI)
  then show ?case by simp
next
  case (3 es x xs)
  show ?case
  proof (cases "map_of es x")
    case None
    then show ?thesis
      by (auto simp: strict_prefix_def prefix_Cons)
  next
    case (Some m)
    have "(\<exists>q c. strict_prefix q (x # xs) \<and> entry_at (Dir es) q = Some (Reg c)) \<longleftrightarrow>
          (\<exists>q c. strict_prefix q xs \<and> entry_at m q = Some (Reg c))"
    proof
      assume "\<exists>q c. strict_prefix q (x # xs) \<and> entry_at (Dir es) q = Some (Reg c)"
      then obtain q c where q: "strict_prefix q (x # xs)" "entry_at (Dir es) q = Some (Reg c)"
        by blast
      then obtain q' where "q = x # q'" by (cases q) (auto simp: strict_prefix_def)
      with q Some show "\<exists>q c. strict_prefix q xs \<and> entry_at m q = Some (Reg c)"
        by (auto simp: strict_prefix_def)
    next
      assume "\<exists>q c. strict_prefix q xs \<and> entry_at m q = Some (Reg c)"
      then obtain q c where q: "strict_prefix q xs" "entry_at m q = Some (Reg c)" by blast
      with Some have "strict_prefix (x # q) (x # xs) \<and> entry_at (Dir es) (x # q) = Some (Reg c)"
        by (auto simp: strict_prefix_def)
      then show "\<exists>q c. strict_prefix q (x # xs) \<and> entry_at (Dir es) q = Some (Reg c)" by blast
    qed
    with Some 3 show ?thesis by simp
  qed
qed

lemma entry_at_put:
  "p \<noteq> [] \<Longrightarrow> entry_at root (butlast p) = Some Directory \<Longrightarrow>
   entry_at (put p v root) q =
     (if prefix p q then (case v of None \<Rightarrow> None | Some m \<Rightarrow> entry_at m (drop (length p) q))
      else entry_at root q)"
proof (induction p v root arbitrary: q rule: put.induct)
  case (1 v n)
  then show ?case by simp
next
  case (2 x xs v c)
  then show ?case by (cases xs) simp_all
next
  case (3 x v es)
  show ?case
    by (cases q) (auto simp: update_conv' delete_conv' split: option.splits)
next
  case (4 x y ys v es)
  from "4.prems" obtain m where m: "map_of es x = Some m"
    and d: "entry_at m (butlast (y # ys)) = Some Directory"
    by (auto split: option.splits)
  show ?case
  proof (cases q)
    case Nil
    then show ?thesis using m by simp
  next
    case (Cons z zs)
    show ?thesis using m "4.IH"[OF m _ d, of zs] Cons
      by (auto simp: update_conv' split: option.splits)
  qed
qed

lemma copy_node_id [simp]: "copy_node n = n"
  by (induction n) (auto intro!: map_idI)

lemma entry_at_File: "entry_at (File c) = leaf c"
  by (rule ext) (simp add: leaf_def neq_Nil_conv, auto)

lemma entry_at_Dir_Nil: "entry_at (Dir []) = empty_dir"
  by (rule ext) (simp add: empty_dir_def neq_Nil_conv, auto)

lemma view_put:
  "p \<noteq> [] \<Longrightarrow> entry_at root (parent p) = Some Directory \<Longrightarrow>
   entry_at (put p v root) =
     graft p (case v of None \<Rightarrow> absent | Some m \<Rightarrow> entry_at m) (entry_at root)"
  by (rule ext) (simp add: entry_at_put graft_def absent_def parent_def split: option.splits)

subsection \<open>os.mkdir and Path.mkdir\<close>

lemma os_mkdir_Inr:
  "os_mkdir p root = Inr r \<longleftrightarrow>
   entry_at root p = None \<and> p \<noteq> [] \<and> entry_at root (parent p) = Some Directory \<and>
   r = put p (Some (Dir [])) root"
  using resolve_FileNotFound[of root p]
  by (auto simp: os_mkdir_def is_dir_iff entry_at_None parent_def split: sum.splits)

lemma os_mkdir_exists:
  "entry_at root p \<noteq> None \<Longrightarrow> os_mkdir p root = Inl FileExistsError"
  by (auto simp: os_mkdir_def entry_at_None split: sum.splits)

lemma os_mkdir_Inl:
  "os_mkdir p root = Inl e \<Longrightarrow>
   (e = FileExistsError \<and> entry_at root p \<noteq> None) \<or>
   (e \<noteq> FileExistsError \<and> entry_at root p = None \<and> resolve root p = Inl e)"
  using resolve_error[of root p]
  by (auto simp: os_mkdir_def entry_at_None split: sum.splits if_splits)

lemma mkdir_exist_ok_Inr:
  "mkdir p False True root = Inr r \<longleftrightarrow>
     (entry_at root p = Some Directory \<and> r = root) \<or>
     (entry_at root p = None \<and> p \<noteq> [] \<and> entry_at root (parent p) = Some Directory \<and>
      r = put p (Some (Dir [])) root)"
proof (cases "os_mkdir p root")
  case (Inl e)
  with os_mkdir_Inr[of p root] have no: "\<not> (entry_at root p = None \<and> p \<noteq> [] \<and>
      entry_at root (parent p) = Some Directory)" by auto
  from os_mkdir_Inl[OF Inl] show ?thesis
  proof
    assume "e = FileExistsError \<and> entry_at root p \<noteq> None"
    then show ?thesis using Inl no
      by (auto simp: mkdir.simps[of p False True root] is_dir_iff)
  next
    assume a: "e \<noteq> FileExistsError \<and> entry_at root p = None \<and> resolve root p = Inl e"
    then show ?thesis using Inl no
      by (auto simp: mkdir.simps[of p False True root] is_dir_iff)
  qed
next
  case (Inr r')
  then show ?thesis using os_mkdir_Inr[of p root r']
    by (auto simp: mkdir.simps[of p False True root])
qed

lemma mkdir_exist_ok_view:
  assumes "mkdir p False True root = Inr r"
  shows "ok_mkdir p (entry_at root) \<and> entry_at r = v_mkdir p (entry_at root)"
  using assms
  by (auto simp: mkdir_exist_ok_Inr ok_mkdir_def v_mkdir_def view_put entry_at_Dir_Nil)

lemma mkdir_exist_ok_total:
  assumes "ok_mkdir p (entry_at root)"
  shows "\<exists>r. mkdir p False True root = Inr r"
  using assms by (auto simp: mkdir_exist_ok_Inr ok_mkdir_def)

lemma mkdir_parents_fails:
  assumes "\<not> ok_mkdirs p (entry_at root)"
  shows "\<exists>e. mkdir p parents True root = Inl e"
proof -
  from assms obtain q c where q: "prefix q p" "entry_at root q = Some (Reg c)"
    unfolding ok_mkdirs_def by (metis entry.exhaust option.exhaust)
  show ?thesis
  proof (cases "q = p")
    case True
    with q have "os_mkdir p root = Inl FileExistsError" by (simp add: os_mkdir_exists)
    with q True show ?thesis by (simp add: mkdir.simps[of p parents True root] is_dir_iff)
  next
    case False
    with q have sp: "strict_prefix q p" by (simp add: strict_prefix_def)
    then have r: "resolve root p = Inl NotADirectoryError"
      using q resolve_NotADirectory by blast
    then have "os_mkdir p root = Inl NotADirectoryError" by (simp add: os_mkdir_def)
    moreover have "\<not> is_dir root p" using r by (simp add: is_dir_def)
    ultimately show ?thesis by (simp add: mkdir.simps[of p parents True root])
  qed
qed

lemma v_mkdirs_fixed:
  assumes "V = entry_at root" and "V p = Some Directory"
  shows "v_mkdirs p V = V"
proof (rule ext)
  fix q
  show "v_mkdirs p V q = V q"
  proof (cases "prefix q p")
    case True
    then obtain r where r: "p = q @ r" by (auto simp: prefix_def)
    show ?thesis
    proof (cases "r = []")
      case True
      with r assms show ?thesis by (simp add: v_mkdirs_def)
    next
      case False
      with r assms entry_at_parent_Directory[of root q r] have "V q = Some Directory" by simp
      with True show ?thesis by (simp add: v_mkdirs_def)
    qed
  next
    case False
    then show ?thesis by (simp add: v_mkdirs_def)
  qed
qed

lemma v_mkdirs_snoc:
  assumes V: "V = entry_at root" and n: "V (ps @ [x]) = None"
  shows "graft (ps @ [x]) empty_dir (v_mkdirs ps V) = v_mkdirs (ps @ [x]) V"
proof (rule ext)
  fix q
  show "graft (ps @ [x]) empty_dir (v_mkdirs ps V) q = v_mkdirs (ps @ [x]) V q"
  proof (cases "prefix (ps @ [x]) q")
    case True
    then obtain r where r: "q = (ps @ [x]) @ r" by (auto simp: prefix_def)
    have "V q = None" unfolding r V using n[unfolded V] by (rule entry_at_None_append)
    moreover have "prefix q (ps @ [x]) \<longleftrightarrow> r = []" using r by (auto simp: prefix_def)
    ultimately show ?thesis using True r
      by (auto simp: graft_def v_mkdirs_def empty_dir_def)
  next
    case False
    then have "prefix q (ps @ [x]) \<longleftrightarrow> prefix q ps" by auto
    with False show ?thesis by (simp add: graft_def v_mkdirs_def)
  qed
qed

lemma mkdir_parents_total:
  "ok_mkdirs p (entry_at root) \<Longrightarrow>
   \<exists>r. mkdir p True True root = Inr r \<and> entry_at r = v_mkdirs p (entry_at root)"
proof (induction p arbitrary: root rule: rev_induct)
  case Nil
  then have d: "entry_at root [] = Some Directory" unfolding ok_mkdirs_def
    by (metis entry_at_Nil option.distinct(1) prefix_order.order_refl)
  then have "os_mkdir [] root = Inl FileExistsError" by (simp add: os_mkdir_exists)
  then have "mkdir [] True True root = Inr root" using d
    by (simp add: mkdir.simps[of "[]" True True root] is_dir_iff del: entry_at_Nil)
  then show ?case using v_mkdirs_fixed[OF refl d] by simp
next
  case (snoc x ps)
  let ?p = "ps @ [x]" and ?V = "entry_at root"
  have pp: "parent ?p = ps" "parent ?p \<noteq> ?p" by (simp_all add: parent_def)
  from snoc.prems have cases: "?V ?p = None \<or> ?V ?p = Some Directory"
    unfolding ok_mkdirs_def by blast
  from snoc.prems have ps: "?V ps = None \<or> ?V ps = Some Directory"
    and okps: "ok_mkdirs ps ?V"
    unfolding ok_mkdirs_def by auto
  show ?case
  proof (cases "?V ?p = Some Directory")
    case True
    then have "os_mkdir ?p root = Inl FileExistsError" by (simp add: os_mkdir_exists)
    then have "mkdir ?p True True root = Inr root" using True
      by (simp add: mkdir.simps[of ?p True True root] is_dir_iff)
    then show ?thesis using v_mkdirs_fixed[OF refl True] by simp
  next
    case False
    with cases have none: "?V ?p = None" by simp
    show ?thesis
    proof (cases "?V ps = Some Directory")
      case True
      then have "os_mkdir ?p root = Inr (put ?p (Some (Dir [])) root)"
        using none by (simp add: os_mkdir_Inr pp)
      then have "mkdir ?p True True root = Inr (put ?p (Some (Dir [])) root)"
        by (simp add: mkdir.simps[of ?p True True root])
      moreover have "entry_at (put ?p (Some (Dir [])) root) = graft ?p empty_dir ?V"
        using True by (simp add: view_put pp entry_at_Dir_Nil)
      moreover have "v_mkdirs ps ?V = ?V" using v_mkdirs_fixed[OF refl True] .
      ultimately show ?thesis using v_mkdirs_snoc[OF refl none] by simp
    next
      case False
      with ps have psn: "?V ps = None" by simp
      obtain e where e: "os_mkdir ?p root = Inl e"
        using os_mkdir_Inr[of ?p root] psn pp by (cases "os_mkdir ?p root") auto
      from os_mkdir_Inl[OF e] none have re: "resolve root ?p = Inl e" by auto
      have "e \<noteq> NotADirectoryError"
      proof
        assume "e = NotADirectoryError"
        with re obtain q c where "strict_prefix q ?p" "?V q = Some (Reg c)"
          using resolve_NotADirectory by blast
        with snoc.prems show False unfolding ok_mkdirs_def strict_prefix_def by auto
      qed
      with resolve_error[OF re] have efnf: "e = FileNotFoundError" by simp
      from snoc.IH[OF okps] obtain r1 where
        r1: "mkdir ps True True root = Inr r1" "entry_at r1 = v_mkdirs ps ?V" by blast
      have a: "entry_at r1 ?p = None" using r1(2) none by (simp add: v_mkdirs_def)
      have b: "entry_at r1 ps = Some Directory" using r1(2) by (simp add: v_mkdirs_def)
      have "mkdir ?p False True r1 = Inr (put ?p (Some (Dir [])) r1)"
        using a b by (simp add: mkdir_exist_ok_Inr pp)
      then have "mkdir ?p True True root = Inr (put ?p (Some (Dir [])) r1)"
        using e efnf r1(1) by (simp add: mkdir.simps[of ?p True True root] pp)
      moreover have "entry_at (put ?p (Some (Dir [])) r1) = graft ?p empty_dir (v_mkdirs ps ?V)"
        using b r1(2) by (simp add: view_put pp entry_at_Dir_Nil)
      ultimately show ?thesis using v_mkdirs_snoc[OF refl none] by simp
    qed
  qed
qed

lemma mkdir_parents_view:
  assumes "mkdir p True True root = Inr r"
  shows "ok_mkdirs p (entry_at root) \<and> entry_at r = v_mkdirs p (entry_at root)"
proof -
  have ok: "ok_mkdirs p (entry_at root)"
    using assms mkdir_parents_fails[of p root True] by auto
  with mkdir_parents_total[OF ok] assms show ?thesis by auto
qed

lemma parent_snoc [simp]: "parent (p @ [n]) = p"
  by (simp add: parent_def)

lemma entry_at_parent:
  assumes "entry_at root p \<noteq> None" and "p \<noteq> []"
  shows "entry_at root (parent p) = Some Directory"
proof -
  from assms(2) have "p = parent p @ [last p]" by (simp add: parent_def)
  with assms(1) entry_at_parent_Directory[of root "parent p" "[last p]"] show ?thesis by simp
qed

lemma graft_graft [simp]: "graft p s (graft p t V) = graft p s V"
  by (rule ext) (simp add: graft_def)

subsection \<open>Path.touch\<close>

lemma touch_Inr:
  "touch p root = Inr r \<longleftrightarrow>
     (entry_at root p \<noteq> None \<and> r = root) \<or>
     (entry_at root p = None \<and> p \<noteq> [] \<and> entry_at root (parent p) = Some Directory \<and>
      r = put p (Some (File [])) root)"
  using resolve_FileNotFound[of root p]
  by (auto simp: touch_def is_dir_iff entry_at_None parent_def split: sum.splits)

lemma touch_view:
  assumes "touch p root = Inr r"
  shows "ok_touch p (entry_at root) \<and> entry_at r = v_touch p (entry_at root)"
  using assms by (auto simp: touch_Inr ok_touch_def v_touch_def view_put entry_at_File)

lemma touch_total:
  assumes "ok_touch p (entry_at root)"
  shows "\<exists>r. touch p root = Inr r"
  using assms by (cases "entry_at root p") (auto simp: touch_Inr ok_touch_def)

subsection \<open>Removing entries\<close>

lemma shutil_rmtree_Inr:
  "shutil_rmtree p root = Inr r \<longleftrightarrow>
     entry_at root p = Some Directory \<and> p \<noteq> [] \<and> r = put p None root"
  by (auto simp: shutil_rmtree_def entry_at_Directory split: sum.splits node.splits)

lemma unlink_Inr:
  "unlink p root = Inr r \<longleftrightarrow> (\<exists>c. entry_at root p = Some (Reg c)) \<and> r = put p None root"
  by (auto simp: unlink_def entry_at_Reg split: sum.splits node.splits)

lemma view_remove:
  assumes "entry_at root p \<noteq> None" and "p \<noteq> []"
  shows "entry_at (put p None root) = graft p absent (entry_at root)"
  using assms by (simp add: view_put entry_at_parent)

lemma rm_if_exists_view:
  assumes "(if path_exists root p then shutil_rmtree p root else Inr root) = Inr r"
  shows "ok_rm p (entry_at root) \<and> entry_at r = v_rm p (entry_at root)"
  using assms
  by (auto simp: path_exists_iff shutil_rmtree_Inr ok_rm_def v_rm_def view_remove
           split: if_splits)

lemma rm_if_exists_total:
  assumes "ok_rm p (entry_at root)"
  shows "\<exists>r. (if path_exists root p then shutil_rmtree p root else Inr root) = Inr r"
  using assms by (auto simp: path_exists_iff shutil_rmtree_Inr ok_rm_def)

subsection \<open>The sweep\<close>

lemma sweep_item_view:
  assumes "entry_at root (d @ [n]) \<noteq> None"
  shows "\<exists>r. sweep_item (d @ [n]) root = Inr r \<and>
           entry_at r = (if exempt n then entry_at root else graft (d @ [n]) absent (entry_at root))"
proof (cases "exempt n")
  case True
  then show ?thesis by (auto simp: sweep_item_def name_def exempt_def)
next
  case False
  have v: "entry_at (put (d @ [n]) None root) = graft (d @ [n]) absent (entry_at root)"
    using assms by (simp add: view_remove)
  show ?thesis
  proof (cases "is_dir root (d @ [n])")
    case True
    then have "shutil_rmtree (d @ [n]) root = Inr (put (d @ [n]) None root)"
      by (simp add: shutil_rmtree_Inr is_dir_iff)
    with True False v show ?thesis by (auto simp: sweep_item_def name_def exempt_def)
  next
    case nd: False
    with assms obtain c where "entry_at root (d @ [n]) = Some (Reg c)"
      by (metis entry.exhaust is_dir_iff option.exhaust)
    then have "unlink (d @ [n]) root = Inr (put (d @ [n]) None root)"
      by (simp add: unlink_Inr)
    with nd False v show ?thesis by (auto simp: sweep_item_def name_def exempt_def)
  qed
qed

lemma sweep_names:
  "distinct ns \<Longrightarrow> \<forall>n\<in>set ns. entry_at root (d @ [n]) \<noteq> None \<Longrightarrow>
   \<exists>r. sweep (map (\<lambda>n. d @ [n]) ns) root = Inr r \<and>
       entry_at r = (\<lambda>q. if \<exists>n\<in>set ns. \<not> exempt n \<and> prefix (d @ [n]) q then None
                          else entry_at root q)"
proof (induction ns arbitrary: root)
  case Nil
  then show ?case by simp
next
  case (Cons n ns)
  from Cons.prems have "entry_at root (d @ [n]) \<noteq> None" by simp
  from sweep_item_view[OF this] obtain r1 where
    r1: "sweep_item (d @ [n]) root = Inr r1"
        "entry_at r1 = (if exempt n then entry_at root else graft (d @ [n]) absent (entry_at root))"
    by blast
  have keep: "\<forall>m\<in>set ns. entry_at r1 (d @ [m]) \<noteq> None"
  proof
    fix m assume m: "m \<in> set ns"
    with Cons.prems have "m \<noteq> n" "entry_at root (d @ [m]) \<noteq> None" by auto
    then show "entry_at r1 (d @ [m]) \<noteq> None" by (simp add: r1(2) graft_def)
  qed
  from Cons.prems have "distinct ns" by simp
  from Cons.IH[OF this keep] obtain r where
    r: "sweep (map (\<lambda>n. d @ [n]) ns) r1 = Inr r"
       "entry_at r = (\<lambda>q. if \<exists>n\<in>set ns. \<not> exempt n \<and> prefix (d @ [n]) q then None
                          else entry_at r1 q)"
    by blast
  have "sweep (map (\<lambda>n. d @ [n]) (n # ns)) root = Inr r" using r1(1) r(1) by simp
  moreover have "entry_at r = (\<lambda>q. if \<exists>m\<in>set (n # ns). \<not> exempt m \<and> prefix (d @ [m]) q
                                    then None else entry_at root q)"
    unfolding r(2) r1(2) by (rule ext) (auto simp: graft_def absent_def)
  ultimately show ?case by blast
qed

lemma iterdir_Inr:
  "iterdir p root = Inr items \<longleftrightarrow>
     (\<exists>es. resolve root p = Inr (Dir es) \<and> items = map (\<lambda>n. p @ [n]) (remdups (map fst es)))"
  by (auto simp: iterdir_def split: sum.splits node.splits)

lemma listed_iff:
  assumes "resolve root d = Inr (Dir es)"
  shows "n \<in> set (map fst es) \<longleftrightarrow> entry_at root (d @ [n]) \<noteq> None"
proof -
  from assms have "lookup root d = Some (Dir es)" by (simp add: lookup_def)
  then have "entry_at root (d @ [n]) = (case map_of es n of None \<Rightarrow> None | Some m \<Rightarrow> Some (kind_of m))"
    by (simp add: entry_at_append split: option.splits)
  moreover have "n \<in> fst ` set es \<longleftrightarrow> map_of es n \<noteq> None"
    by (simp add: map_of_eq_None_iff)
  ultimately show ?thesis by (auto split: option.splits)
qed

lemma sweep_dir:
  assumes "entry_at root d = Some Directory"
  shows "\<exists>items r. iterdir d root = Inr items \<and> sweep items root = Inr r \<and>
           entry_at r = v_sweep d (entry_at root)"
proof -
  from assms obtain es where es: "resolve root d = Inr (Dir es)"
    by (auto simp: entry_at_Directory)
  let ?ns = "remdups (map fst es)"
  have it: "iterdir d root = Inr (map (\<lambda>n. d @ [n]) ?ns)" using es by (simp add: iterdir_Inr)
  have "\<forall>n\<in>set ?ns. entry_at root (d @ [n]) \<noteq> None" using listed_iff[OF es] by simp
  from sweep_names[OF distinct_remdups this] obtain r where
    r: "sweep (map (\<lambda>n. d @ [n]) ?ns) root = Inr r"
       "entry_at r = (\<lambda>q. if \<exists>n\<in>set ?ns. \<not> exempt n \<and> prefix (d @ [n]) q then None
                          else entry_at root q)"
    by blast
  have "entry_at r = v_sweep d (entry_at root)"
  proof (rule ext)
    fix q
    show "entry_at r q = v_sweep d (entry_at root) q"
    proof (cases "\<exists>n. \<not> exempt n \<and> prefix (d @ [n]) q")
      case True
      then obtain n t where n: "\<not> exempt n" "q = (d @ [n]) @ t" by (auto simp: prefix_def)
      show ?thesis
      proof (cases "n \<in> set ?ns")
        case True
        with n show ?thesis by (auto simp: r(2) v_sweep_def)
      next
        case False
        then have "entry_at root (d @ [n]) = None" using listed_iff[OF es, of n] by simp
        then have "entry_at root q = None" unfolding n(2) by (rule entry_at_None_append)
        with n show ?thesis by (auto simp: r(2) v_sweep_def)
      qed
    next
      case False
      then show ?thesis by (auto simp: r(2) v_sweep_def)
    qed
  qed
  with it r(1) show ?thesis by blast
qed

lemma iterdir_Directory:
  assumes "iterdir d root = Inr items"
  shows "entry_at root d = Some Directory"
  using assms by (auto simp: iterdir_Inr entry_at_Directory)

subsection \<open>shutil.copy\<close>

lemma copyfile_Inr:
  "copyfile src dst root = Inr r \<longleftrightarrow>
     (\<exists>c. entry_at root src = Some (Reg c) \<and> src \<noteq> dst \<and>
          entry_at root dst \<noteq> Some Directory \<and> dst \<noteq> [] \<and>
          entry_at root (parent dst) = Some Directory \<and> r = put dst (Some (File c)) root)"
proof (cases "entry_at root src")
  case None
  then show ?thesis by (auto simp: copyfile_def path_exists_iff entry_at_None entry_at_Reg)
next
  case (Some a)
  show ?thesis
  proof (cases a)
    case (Reg c)
    with Some have src: "resolve root src = Inr (File c)" by (simp add: entry_at_Reg)
    show ?thesis
    proof (cases "src = dst")
      case True
      with Some show ?thesis by (simp add: copyfile_def path_exists_iff)
    next
      case ne: False
      show ?thesis
      proof (cases "dst = []")
        case True
        with ne Some Reg obtain es where "root = Dir es" by (cases root; cases src) auto
        with True src ne show ?thesis by (simp add: copyfile_def path_exists_iff)
      next
      case dne: False
      show ?thesis
      proof (cases "entry_at root dst")
        case None
        then obtain e where e: "resolve root dst = Inl e" by (auto simp: entry_at_None)
        show ?thesis
          using resolve_FileNotFound[OF None dne] e None Some Reg src ne dne
          by (auto simp: copyfile_def path_exists_iff is_dir_iff parent_def)
      next
        case (Some b)
        then have par: "entry_at root (parent dst) = Some Directory"
          using dne entry_at_parent[of root dst] by simp
        show ?thesis
        proof (cases b)
          case (Reg c')
          with Some have "resolve root dst = Inr (File c')" by (simp add: entry_at_Reg)
          with src ne dne par Some Reg \<open>entry_at root src = Some a\<close> \<open>a = Reg c\<close> show ?thesis
            by (auto simp: copyfile_def path_exists_iff)
        next
          case Directory
          with Some obtain es where "resolve root dst = Inr (Dir es)"
            by (auto simp: entry_at_Directory)
          with src ne Some Directory show ?thesis
            by (auto simp: copyfile_def path_exists_iff)
        qed
      qed
      qed
    qed
  next
    case Directory
    with Some obtain es where "resolve root src = Inr (Dir es)"
      by (auto simp: entry_at_Directory)
    with Some Directory show ?thesis by (auto simp: copyfile_def path_exists_iff)
  qed
qed

lemma shutil_copy_view:
  assumes "shutil_copy src dst root = Inr r"
  shows "ok_copy src dst (entry_at root) \<and> entry_at r = v_copy src dst (entry_at root)"
  using assms
  by (auto simp: shutil_copy_def copyfile_Inr ok_copy_def v_copy_def copy_dst_def is_dir_iff
                 view_put entry_at_File)

lemma shutil_copy_total:
  assumes "ok_copy src dst (entry_at root)"
  shows "\<exists>r. shutil_copy src dst root = Inr r"
  using assms
  by (auto simp: shutil_copy_def copyfile_Inr ok_copy_def copy_dst_def is_dir_iff)

subsection \<open>shutil.copytree\<close>

lemma makedirs_fresh:
  assumes "entry_at root dst = None" "dst \<noteq> []" "entry_at root (parent dst) = Some Directory"
  shows "mkdir dst True False root = Inr (put dst (Some (Dir [])) root)"
proof -
  have "os_mkdir dst root = Inr (put dst (Some (Dir [])) root)"
    using assms by (simp add: os_mkdir_Inr)
  then show ?thesis by (simp add: mkdir.simps[of dst True False root])
qed

lemma shutil_copytree_fresh:
  assumes "entry_at root dst = None" "dst \<noteq> []" "entry_at root (parent dst) = Some Directory"
  shows "(\<exists>r. shutil_copytree src dst root = Inr r) \<longleftrightarrow> entry_at root src = Some Directory"
    and "shutil_copytree src dst root = Inr r \<Longrightarrow>
         entry_at r = v_copytree src dst (entry_at root)"
proof -
  note mk = makedirs_fresh[OF assms]
  show "(\<exists>r. shutil_copytree src dst root = Inr r) \<longleftrightarrow> entry_at root src = Some Directory"
    by (auto simp: shutil_copytree_def mk entry_at_Directory split: sum.splits node.splits)
  assume a: "shutil_copytree src dst root = Inr r"
  then obtain es where es: "resolve root src = Inr (Dir es)"
    and r: "r = put dst (Some (Dir es)) (put dst (Some (Dir [])) root)"
    by (auto simp: shutil_copytree_def mk split: sum.splits node.splits)
  let ?r1 = "put dst (Some (Dir [])) root"
  have v1: "entry_at ?r1 = graft dst empty_dir (entry_at root)"
    using assms by (simp add: view_put entry_at_Dir_Nil)
  have "\<not> prefix dst (parent dst)" using assms(2)
    by (metis parent_def append_butlast_last_id prefix_order.dual_order.antisym prefix_snoc
        prefixI butlast_snoc not_Cons_self2 self_append_conv)
  then have "entry_at ?r1 (parent dst) = Some Directory" using assms(3) by (simp add: v1 graft_def)
  then have "entry_at r = graft dst (entry_at (Dir es)) (entry_at root)"
    unfolding r using assms(2) by (simp add: view_put v1)
  moreover have "entry_at (Dir es) = (\<lambda>t. entry_at root (src @ t))"
    using es by (intro ext) (simp add: entry_at_append lookup_def)
  ultimately show "entry_at r = v_copytree src dst (entry_at root)"
    by (simp add: v_copytree_def)
qed

section \<open>The effect of bundle_server on the view\<close>

lemma paths:
  "script_dir = [''sdks'', ''python'']"
  "core_dir = [''core'']"
  "target_dir = [''sdks'', ''python'', ''pmxt'', ''_server'']"
  "bundled_server = [''core'', ''dist'', ''server'', ''bundled.js'']"
  "bin_dir = [''core'', ''bin'']"
  "server_target = [''sdks'', ''python'', ''pmxt'', ''_server'', ''server'']"
  by (simp_all add: script_file_def script_dir_def core_dir_def target_dir_def server_dist_def
        bundled_server_def bin_dir_def server_target_def parent_def)

lemma view1_target: "view1 V target_dir = Some Directory"
  by (simp add: view1_def v_mkdirs_def)

lemma view2_target: "view2 V target_dir = Some Directory"
  using view1_target[of V] by (simp add: view2_def v_mkdir_def graft_def paths)

lemma view2_server:
  "ok_mkdir server_target (view1 V) \<Longrightarrow> view2 V server_target = Some Directory"
  by (auto simp: view2_def v_mkdir_def ok_mkdir_def graft_def empty_dir_def)

lemma copy_dst_cases:
  "copy_dst bundled_server (server_target @ [''bundled.js'']) W =
     server_target @ [''bundled.js''] \<or>
   copy_dst bundled_server (server_target @ [''bundled.js'']) W =
     server_target @ [''bundled.js'', ''bundled.js'']"
  by (simp add: copy_dst_def name_def paths)

lemma view3_target: "view3 V target_dir = Some Directory"
  using copy_dst_cases[of "view2 V"] view2_target[of V]
  by (auto simp: view3_def v_copy_def graft_def paths)

lemma view3_server:
  "ok_mkdir server_target (view1 V) \<Longrightarrow> view3 V server_target = Some Directory"
  using copy_dst_cases[of "view2 V"] view2_server[of V]
  by (auto simp: view3_def v_copy_def graft_def paths)

lemma view4_target: "view4 V target_dir = Some Directory"
  using view3_target[of V] by (simp add: view4_def v_rm_def graft_def paths)

lemma view4_server:
  "ok_mkdir server_target (view1 V) \<Longrightarrow> view4 V server_target = Some Directory"
  using view3_server[of V] by (simp add: view4_def v_rm_def graft_def paths)

lemma view4_bin: "view4 V (target_dir @ [''bin'']) = None"
  by (simp add: view4_def v_rm_def graft_def absent_def)

lemma view5_target: "view5 V target_dir = Some Directory"
  using view4_target[of V] by (simp add: view5_def v_copytree_def graft_def paths)

lemma view5_server:
  "ok_mkdir server_target (view1 V) \<Longrightarrow> view5 V server_target = Some Directory"
  using view4_server[of V] by (simp add: view5_def v_copytree_def graft_def paths)

lemma view6_target: "view6 V target_dir = Some Directory"
  using view5_target[of V] by (simp add: view6_def v_sweep_def paths)

lemma bundle_server_True:
  assumes "bundle_server w = Return True w'"
  shows "ok_bundle (entry_at (fs w))"
    and "entry_at (fs w') = v_bundle (entry_at (fs w))"
    and "stdout w' = stdout w @
           [''Copying bundled server from '' @ str_path bundled_server @ ''...'',
            ''Copying bin from '' @ str_path bin_dir @ '' to ''
              @ str_path (target_dir @ [''bin'']) @ ''...'']"
    and "stderr w' = stderr w"
proof -
  let ?V = "entry_at (fs w)"
  from assms obtain f1 f2 f3 f4 f5 items f6 f7 where
    chk: "path_exists (fs w) core_dir" "path_exists (fs w) bundled_server"
         "path_exists (fs w) bin_dir"
    and s1: "mkdir target_dir True True (fs w) = Inr f1"
    and s2: "mkdir server_target False True f1 = Inr f2"
    and s3: "shutil_copy bundled_server (server_target @ [''bundled.js'']) f2 = Inr f3"
    and s4: "(if path_exists f3 (target_dir @ [''bin''])
              then shutil_rmtree (target_dir @ [''bin'']) f3 else Inr f3) = Inr f4"
    and s5: "shutil_copytree bin_dir (target_dir @ [''bin'']) f4 = Inr f5"
    and s6: "iterdir server_target f5 = Inr items" "sweep items f5 = Inr f6"
    and s7: "touch (target_dir @ [''__init__.py'']) f6 = Inr f7"
    and w': "w' = print_out (''Copying bin from '' @ str_path bin_dir @ '' to ''
                 @ str_path (target_dir @ [''bin'']) @ ''...'')
               (print_out (''Copying bundled server from '' @ str_path bundled_server @ ''...'')
                 w) \<lparr>fs := f7\<rparr>"
    unfolding bundle_server_def Let_def
    by (simp add: print_out_def split: if_splits sum.splits prod.splits)
  have v1: "ok_mkdirs target_dir ?V" "entry_at f1 = view1 ?V"
    using mkdir_parents_view[OF s1] by (simp_all add: view1_def)
  have v2: "ok_mkdir server_target (view1 ?V)" "entry_at f2 = view2 ?V"
    using mkdir_exist_ok_view[OF s2] by (simp_all add: view2_def v1)
  have v3: "ok_copy bundled_server (server_target @ [''bundled.js'']) (view2 ?V)"
      "entry_at f3 = view3 ?V"
    using shutil_copy_view[OF s3] by (simp_all add: view3_def v2)
  have v4: "ok_rm (target_dir @ [''bin'']) (view3 ?V)" "entry_at f4 = view4 ?V"
    using rm_if_exists_view[OF s4] by (simp_all add: view4_def v3)
  have fresh: "entry_at f4 (target_dir @ [''bin'']) = None" "target_dir @ [''bin''] \<noteq> []"
      "entry_at f4 (parent (target_dir @ [''bin''])) = Some Directory"
    by (simp_all add: v4 view4_bin view4_target)
  have v5: "view4 ?V bin_dir = Some Directory" "entry_at f5 = view5 ?V"
    using shutil_copytree_fresh[OF fresh, of bin_dir] s5 by (auto simp: view5_def v4)
  have "entry_at f5 server_target = Some Directory" by (simp add: v5 view5_server v2)
  from sweep_dir[OF this] s6 have v6: "entry_at f6 = view6 ?V"
    by (auto simp: view6_def v5)
  have v7: "entry_at f7 = v_bundle ?V"
    using touch_view[OF s7] by (simp add: v_bundle_def v6)
  show "ok_bundle ?V"
    using chk v1 v2 v3 v4 v5 by (simp add: ok_bundle_def path_exists_iff)
  show "entry_at (fs w') = v_bundle ?V" using v7 by (simp add: w')
  show "stdout w' = stdout w @
           [''Copying bundled server from '' @ str_path bundled_server @ ''...'',
            ''Copying bin from '' @ str_path bin_dir @ '' to ''
              @ str_path (target_dir @ [''bin'']) @ ''...'']"
    by (simp add: w' print_out_def)
  show "stderr w' = stderr w" by (simp add: w' print_out_def)
qed

lemma bundle_server_total:
  assumes "ok_bundle (entry_at (fs w))"
  shows "\<exists>w'. bundle_server w = Return True w'"
proof -
  let ?V = "entry_at (fs w)"
  from assms have chk: "path_exists (fs w) core_dir" "path_exists (fs w) bundled_server"
         "path_exists (fs w) bin_dir"
    and o1: "ok_mkdirs target_dir ?V"
    and o2: "ok_mkdir server_target (view1 ?V)"
    and o3: "ok_copy bundled_server (server_target @ [''bundled.js'']) (view2 ?V)"
    and o4: "ok_rm (target_dir @ [''bin'']) (view3 ?V)"
    and o5: "view4 ?V bin_dir = Some Directory"
    by (simp_all add: ok_bundle_def path_exists_iff)
  from mkdir_parents_total[OF o1] obtain f1 where
    s1: "mkdir target_dir True True (fs w) = Inr f1" and v1: "entry_at f1 = view1 ?V"
    by (auto simp: view1_def)
  from mkdir_exist_ok_total[of server_target f1] o2 obtain f2 where
    s2: "mkdir server_target False True f1 = Inr f2" by (auto simp: v1)
  have v2: "entry_at f2 = view2 ?V"
    using mkdir_exist_ok_view[OF s2] by (simp add: view2_def v1)
  from shutil_copy_total[of bundled_server "server_target @ [''bundled.js'']" f2] o3
  obtain f3 where
    s3: "shutil_copy bundled_server (server_target @ [''bundled.js'']) f2 = Inr f3"
    by (auto simp: v2)
  have v3: "entry_at f3 = view3 ?V"
    using shutil_copy_view[OF s3] by (simp add: view3_def v2)
  from rm_if_exists_total[of "target_dir @ [''bin'']" f3] o4 obtain f4 where
    s4: "(if path_exists f3 (target_dir @ [''bin''])
              then shutil_rmtree (target_dir @ [''bin'']) f3 else Inr f3) = Inr f4"
    by (auto simp: v3)
  have v4: "entry_at f4 = view4 ?V"
    using rm_if_exists_view[OF s4] by (simp add: view4_def v3)
  have fresh: "entry_at f4 (target_dir @ [''bin'']) = None" "target_dir @ [''bin''] \<noteq> []"
      "entry_at f4 (parent (target_dir @ [''bin''])) = Some Directory"
    by (simp_all add: v4 view4_bin view4_target)
  from shutil_copytree_fresh(1)[OF fresh, of bin_dir] o5 obtain f5 where
    s5: "shutil_copytree bin_dir (target_dir @ [''bin'']) f4 = Inr f5"
    by (auto simp: v4)
  have v5: "entry_at f5 = view5 ?V"
    using shutil_copytree_fresh(2)[OF fresh s5] by (simp add: view5_def v4)
  have "entry_at f5 server_target = Some Directory" by (simp add: v5 view5_server o2)
  from sweep_dir[OF this] obtain items f6 where
    s6: "iterdir server_target f5 = Inr items" "sweep items f5 = Inr f6"
    and v6: "entry_at f6 = view6 ?V"
    by (auto simp: view6_def v5)
  have "ok_touch (target_dir @ [''__init__.py'']) (entry_at f6)"
    by (simp add: ok_touch_def v6 view6_target)
  from touch_total[OF this] obtain f7 where
    s7: "touch (target_dir @ [''__init__.py'']) f6 = Inr f7" by blast
  show ?thesis
    unfolding bundle_server_def Let_def using chk s1 s2 s3 s4 s5 s6 s7 by simp
qed

lemma sb_cases:
  "copy_dst bundled_server (server_target @ [''bundled.js'']) W =
     (if W (server_target @ [''bundled.js'']) = Some Directory
      then server_target @ [''bundled.js'', ''bundled.js'']
      else server_target @ [''bundled.js''])"
  by (simp add: copy_dst_def name_def paths)

lemma sb_cases2:
  "copy_dst bundled_server (target_dir @ [''server'', ''bundled.js'']) W =
     (if W (target_dir @ [''server'', ''bundled.js'']) = Some Directory
      then target_dir @ [''server'', ''bundled.js'', ''bundled.js'']
      else target_dir @ [''server'', ''bundled.js''])"
  by (simp add: copy_dst_def name_def paths)

lemma post_ancestors:
  assumes "prefix q target_dir"
  shows "v_bundle V q = Some Directory"
proof -
  from assms obtain t where t: "target_dir = q @ t" by (auto simp: prefix_def)
  have np: "\<And>x s. \<not> prefix (target_dir @ x # s) q"
    unfolding t by (auto simp: prefix_def)
  have "view1 V q = Some Directory" using assms by (simp add: view1_def v_mkdirs_def)
  then have "view2 V q = Some Directory"
    using np[of "''server''" "[]"] by (simp add: view2_def v_mkdir_def graft_def server_target_def)
  then have "view3 V q = Some Directory"
    using np[of "''server''" "[''bundled.js'']"] np[of "''server''" "[''bundled.js'', ''bundled.js'']"]
    by (simp add: view3_def v_copy_def graft_def server_target_def sb_cases2)
  then have "view4 V q = Some Directory"
    using np[of "''bin''" "[]"] by (simp add: view4_def v_rm_def graft_def)
  then have "view5 V q = Some Directory"
    using np[of "''bin''" "[]"] by (simp add: view5_def v_copytree_def graft_def)
  then have "view6 V q = Some Directory"
    using np[of "''server''"] by (simp add: view6_def v_sweep_def server_target_def)
  then show ?thesis
    using np[of "''__init__.py''" "[]"] by (simp add: v_bundle_def v_touch_def graft_def)
qed

lemma post_outside:
  assumes "\<not> prefix q target_dir" and "\<not> prefix target_dir q"
  shows "v_bundle V q = V q"
proof -
  have np: "\<And>s. \<not> prefix (target_dir @ s) q"
    using assms(2) by (auto simp: prefix_def)
  have "view1 V q = V q" using assms by (simp add: view1_def v_mkdirs_def)
  then have "view2 V q = V q"
    using np[of "[''server'']"] by (simp add: view2_def v_mkdir_def graft_def server_target_def)
  then have "view3 V q = V q"
    using np[of "[''server'', ''bundled.js'']"] np[of "[''server'', ''bundled.js'', ''bundled.js'']"]
    by (simp add: view3_def v_copy_def graft_def server_target_def sb_cases2)
  then have "view4 V q = V q"
    using np[of "[''bin'']"] by (simp add: view4_def v_rm_def graft_def)
  then have "view5 V q = V q"
    using np[of "[''bin'']"] by (simp add: view5_def v_copytree_def graft_def)
  then have "view6 V q = V q"
    using np[of "[''server'', n]" for n] by (simp add: view6_def v_sweep_def server_target_def)
  then show ?thesis
    using np[of "[''__init__.py'']"] by (simp add: v_bundle_def v_touch_def graft_def)
qed

lemma view3_other:
  assumes "\<not> prefix (server_target @ [''bundled.js'']) q"
  shows "view3 V q = view2 V q"
proof -
  have "\<not> prefix (server_target @ [''bundled.js'', ''bundled.js'']) q"
    using assms by (auto simp: prefix_def)
  with assms show ?thesis by (simp add: view3_def v_copy_def graft_def sb_cases)
qed

lemma view2_other:
  assumes "\<not> prefix server_target q"
  shows "view2 V q = view1 V q"
  using assms by (simp add: view2_def v_mkdir_def graft_def)

lemma view4_other:
  assumes "\<not> prefix (target_dir @ [''bin'']) q"
  shows "view4 V q = view3 V q"
  using assms by (simp add: view4_def v_rm_def graft_def)

lemma view5_other:
  assumes "\<not> prefix (target_dir @ [''bin'']) q"
  shows "view5 V q = view4 V q"
  using assms by (simp add: view5_def v_copytree_def graft_def)

lemma view5_bin: "view5 V (target_dir @ [''bin''] @ r) = view4 V (bin_dir @ r)"
  using prefixI[of "target_dir @ [''bin''] @ r" "target_dir @ [''bin'']" r]
  by (simp add: view5_def v_copytree_def graft_def)

lemma view6_other:
  assumes "\<not> prefix server_target q \<or> q = server_target"
  shows "view6 V q = view5 V q"
  using assms by (auto simp: view6_def v_sweep_def prefix_def)

lemma v_bundle_other:
  assumes "\<not> prefix (target_dir @ [''__init__.py'']) q"
  shows "v_bundle V q = view6 V q"
  using assms by (simp add: v_bundle_def v_touch_def graft_def)

lemma post_bin: "v_bundle V (target_dir @ [''bin''] @ r) = V (bin_dir @ r)"
proof -
  have "v_bundle V (target_dir @ [''bin''] @ r) = view6 V (target_dir @ [''bin''] @ r)"
    by (rule v_bundle_other) (simp add: paths)
  also have "\<dots> = view5 V (target_dir @ [''bin''] @ r)"
    by (rule view6_other) (simp add: paths)
  also have "\<dots> = view4 V (bin_dir @ r)" by (rule view5_bin)
  also have "\<dots> = view3 V (bin_dir @ r)" by (rule view4_other) (simp add: paths)
  also have "\<dots> = view2 V (bin_dir @ r)" by (rule view3_other) (simp add: paths)
  also have "\<dots> = view1 V (bin_dir @ r)" by (rule view2_other) (simp add: paths)
  also have "\<dots> = V (bin_dir @ r)" by (simp add: view1_def v_mkdirs_def paths)
  finally show ?thesis .
qed

lemma post_swept: "\<not> exempt n \<Longrightarrow> v_bundle V (server_target @ [n]) = None"
proof -
  assume n: "\<not> exempt n"
  have "v_bundle V (server_target @ [n]) = view6 V (server_target @ [n])"
    by (rule v_bundle_other) (simp add: paths)
  also have "\<dots> = None" using n by (auto simp: view6_def v_sweep_def)
  finally show ?thesis .
qed

lemma post_server:
  assumes "ok_mkdir server_target (view1 V)"
  shows "v_bundle V server_target = Some Directory"
proof -
  have "v_bundle V server_target = view6 V server_target"
    by (rule v_bundle_other) (simp add: paths)
  also have "\<dots> = view5 V server_target" by (rule view6_other) simp
  finally show ?thesis using view5_server[OF assms] by simp
qed

lemma view6_init:
  "view6 V (target_dir @ [''__init__.py'']) = V (target_dir @ [''__init__.py''])"
proof -
  let ?i = "target_dir @ [''__init__.py'']"
  have "view6 V ?i = view5 V ?i" by (rule view6_other) (simp add: paths)
  also have "\<dots> = view4 V ?i" by (rule view5_other) (simp add: paths)
  also have "\<dots> = view3 V ?i" by (rule view4_other) (simp add: paths)
  also have "\<dots> = view2 V ?i" by (rule view3_other) (simp add: paths)
  also have "\<dots> = view1 V ?i" by (rule view2_other) (simp add: paths)
  also have "\<dots> = V ?i" by (simp add: view1_def v_mkdirs_def paths)
  finally show ?thesis .
qed

lemma post_init:
  "v_bundle (entry_at root) (target_dir @ [''__init__.py'']) =
     (case entry_at root (target_dir @ [''__init__.py'']) of
        None \<Rightarrow> Some (Reg []) | Some e \<Rightarrow> Some e)"
  using view6_init[of "entry_at root"]
  by (simp add: v_bundle_def v_touch_def graft_def leaf_def split: option.splits)

lemma view6_exempt:
  assumes "exempt n"
  shows "view6 V (server_target @ n # r) = view5 V (server_target @ n # r)"
  using assms by (auto simp: view6_def v_sweep_def)

lemma below_server_kept:
  assumes "exempt n"
  shows "v_bundle V (server_target @ n # r) = view3 V (server_target @ n # r)"
proof -
  let ?q = "server_target @ n # r"
  have "v_bundle V ?q = view6 V ?q" by (rule v_bundle_other) (simp add: paths)
  also have "\<dots> = view5 V ?q" by (rule view6_exempt[OF assms])
  also have "\<dots> = view4 V ?q" by (rule view5_other) (simp add: paths)
  also have "\<dots> = view3 V ?q" by (rule view4_other) (simp add: paths)
  finally show ?thesis .
qed

lemma view2_below_server:
  "view2 (entry_at root) (server_target @ n # r) = entry_at root (server_target @ n # r)"
proof -
  let ?q = "server_target @ n # r"
  have one: "view1 (entry_at root) ?q = entry_at root ?q"
    by (simp add: view1_def v_mkdirs_def paths)
  have srv: "view1 (entry_at root) server_target = entry_at root server_target"
    by (simp add: view1_def v_mkdirs_def paths)
  show ?thesis
  proof (cases "entry_at root server_target")
    case None
    then have "entry_at root ?q = None" by (rule entry_at_None_append)
    with None one srv show ?thesis
      by (simp add: view2_def v_mkdir_def graft_def empty_dir_def)
  next
    case (Some a)
    with one srv show ?thesis by (simp add: view2_def v_mkdir_def)
  qed
qed

lemma post_artifact:
  assumes "entry_at root bundled_server = Some (Reg c)"
  shows "v_bundle (entry_at root)
           (copy_dst bundled_server (server_target @ [''bundled.js'']) (entry_at root)) =
         Some (Reg c)"
    and "v_bundle (entry_at root) (server_target @ [''bundled.js'']) =
           (if entry_at root (server_target @ [''bundled.js'']) = Some Directory
            then Some Directory else Some (Reg c))"
proof -
  let ?V = "entry_at root" and ?sb = "server_target @ [''bundled.js'']"
  have ex: "exempt ''bundled.js''" by (simp add: exempt_def)
  have v2: "view2 ?V ?sb = ?V ?sb" using view2_below_server[of root "''bundled.js''" "[]"] by simp
  have "view2 ?V bundled_server = view1 ?V bundled_server"
    by (rule view2_other) (simp add: paths)
  then have art: "view2 ?V bundled_server = Some (Reg c)"
    using assms by (simp add: view1_def v_mkdirs_def paths)
  have d: "copy_dst bundled_server ?sb (view2 ?V) = copy_dst bundled_server ?sb ?V"
    by (simp add: sb_cases v2)
  have v3: "view3 ?V (copy_dst bundled_server ?sb ?V) = Some (Reg c)"
    by (simp add: view3_def v_copy_def d art graft_def leaf_def)
  have v3b: "view3 ?V ?sb = (if ?V ?sb = Some Directory then Some Directory else Some (Reg c))"
    using v2 by (simp add: view3_def v_copy_def d art graft_def leaf_def sb_cases)
  have k1: "v_bundle ?V ?sb = view3 ?V ?sb"
    using below_server_kept[OF ex, of ?V "[]"] by simp
  have k2: "v_bundle ?V (?sb @ [''bundled.js'']) = view3 ?V (?sb @ [''bundled.js''])"
    using below_server_kept[OF ex, of ?V "[''bundled.js'']"] by simp
  show "v_bundle ?V (copy_dst bundled_server ?sb ?V) = Some (Reg c)"
    using v3 k1 k2 by (simp add: sb_cases split: if_splits)
  show "v_bundle ?V ?sb = (if ?V ?sb = Some Directory then Some Directory else Some (Reg c))"
    using v3b k1 by simp
qed

lemma post_pycache:
  "v_bundle (entry_at root) (server_target @ ''__pycache__'' # r) =
     entry_at root (server_target @ ''__pycache__'' # r)"
proof -
  let ?q = "server_target @ ''__pycache__'' # r"
  have "v_bundle (entry_at root) ?q = view3 (entry_at root) ?q"
    by (rule below_server_kept) (simp add: exempt_def)
  also have "\<dots> = view2 (entry_at root) ?q" by (rule view3_other) simp
  also have "\<dots> = entry_at root ?q" by (rule view2_below_server)
  finally show ?thesis .
qed

section \<open>When a run succeeds\<close>

lemma view1_other:
  assumes "\<not> prefix q target_dir"
  shows "view1 V q = V q"
  using assms by (simp add: view1_def v_mkdirs_def)

lemma ok_server_iff:
  assumes "ok_mkdirs target_dir (entry_at root)"
  shows "ok_mkdir server_target (view1 (entry_at root)) \<longleftrightarrow>
         (\<forall>c. entry_at root server_target \<noteq> Some (Reg c))"
proof -
  have s: "view1 (entry_at root) server_target = entry_at root server_target"
    by (rule view1_other) (simp add: paths)
  have p: "view1 (entry_at root) (parent server_target) = Some Directory"
    using view1_target[of "entry_at root"] by (simp add: server_target_def)
  have ne: "server_target \<noteq> []" by (simp add: paths)
  show ?thesis
  proof (cases "entry_at root server_target")
    case None
    then show ?thesis using s p ne by (simp add: ok_mkdir_def)
  next
    case (Some a)
    then show ?thesis using s by (cases a) (simp_all add: ok_mkdir_def)
  qed
qed

lemma ok_copy_iff:
  assumes "ok_mkdir server_target (view1 (entry_at root))"
  shows "ok_copy bundled_server (server_target @ [''bundled.js'']) (view2 (entry_at root)) \<longleftrightarrow>
         (\<exists>c. entry_at root bundled_server = Some (Reg c)) \<and>
         entry_at root (server_target @ [''bundled.js'', ''bundled.js'']) \<noteq> Some Directory"
proof -
  let ?V = "entry_at root" and ?sb = "server_target @ [''bundled.js'']"
  have "view2 ?V bundled_server = view1 ?V bundled_server"
    by (rule view2_other) (simp add: paths)
  also have "\<dots> = ?V bundled_server" by (rule view1_other) (simp add: paths)
  finally have art: "view2 ?V bundled_server = ?V bundled_server" .
  have sb: "view2 ?V ?sb = ?V ?sb"
    using view2_below_server[of root "''bundled.js''" "[]"] by simp
  have sbb: "view2 ?V (?sb @ [''bundled.js'']) = ?V (?sb @ [''bundled.js''])"
    using view2_below_server[of root "''bundled.js''" "[''bundled.js'']"] by simp
  have srv: "view2 ?V server_target = Some Directory" by (rule view2_server[OF assms])
  have ne: "bundled_server \<noteq> ?sb" "bundled_server \<noteq> ?sb @ [''bundled.js'']"
    by (simp_all add: paths)
  have par: "parent (server_target @ [''bundled.js'', ''bundled.js'']) = ?sb"
    by (simp add: parent_def butlast_append)
  show ?thesis
  proof (cases "?V ?sb = Some Directory")
    case True
    then show ?thesis using art sb sbb ne par
      by (simp add: ok_copy_def sb_cases)
  next
    case False
    have "?V (?sb @ [''bundled.js'']) \<noteq> Some Directory"
    proof
      assume "?V (?sb @ [''bundled.js'']) = Some Directory"
      then have "?V ?sb = Some Directory"
        using entry_at_parent_Directory[of root ?sb "[''bundled.js'']"] by simp
      with False show False by simp
    qed
    then show ?thesis using False art sb srv ne
      by (simp add: ok_copy_def sb_cases)
  qed
qed

lemma view3_bin: "view3 V (target_dir @ [''bin'']) = V (target_dir @ [''bin''])"
proof -
  let ?b = "target_dir @ [''bin'']"
  have "view3 V ?b = view2 V ?b" by (rule view3_other) (simp add: paths)
  also have "\<dots> = view1 V ?b" by (rule view2_other) (simp add: paths)
  also have "\<dots> = V ?b" by (rule view1_other) (simp add: paths)
  finally show ?thesis .
qed

lemma view4_source: "view4 V (bin_dir @ r) = V (bin_dir @ r)"
proof -
  let ?b = "bin_dir @ r"
  have "view4 V ?b = view3 V ?b" by (rule view4_other) (simp add: paths)
  also have "\<dots> = view2 V ?b" by (rule view3_other) (simp add: paths)
  also have "\<dots> = view1 V ?b" by (rule view2_other) (simp add: paths)
  also have "\<dots> = V ?b" by (rule view1_other) (simp add: paths)
  finally show ?thesis .
qed

lemma ok_rm_iff:
  "ok_rm (target_dir @ [''bin'']) (view3 V) \<longleftrightarrow>
   (\<forall>c. V (target_dir @ [''bin'']) \<noteq> Some (Reg c))"
proof (cases "V (target_dir @ [''bin''])")
  case None
  then show ?thesis by (simp add: ok_rm_def view3_bin)
next
  case (Some a)
  then show ?thesis by (cases a) (simp_all add: ok_rm_def view3_bin)
qed

lemma ok_bundle_iff:
  "ok_bundle (entry_at root) \<longleftrightarrow>
     (\<exists>c. entry_at root bundled_server = Some (Reg c)) \<and>
     entry_at root bin_dir = Some Directory \<and>
     ok_mkdirs target_dir (entry_at root) \<and>
     (\<forall>c. entry_at root server_target \<noteq> Some (Reg c)) \<and>
     entry_at root (server_target @ [''bundled.js'', ''bundled.js'']) \<noteq> Some Directory \<and>
     (\<forall>c. entry_at root (target_dir @ [''bin'']) \<noteq> Some (Reg c))"
proof -
  let ?V = "entry_at root"
  have core: "?V core_dir \<noteq> None" if "?V bin_dir = Some Directory"
  proof -
    have "bin_dir = core_dir @ [''bin'']" by (simp add: bin_dir_def)
    with that entry_at_parent_Directory[of root core_dir "[''bin'']"] show ?thesis by simp
  qed
  have src: "view4 ?V bin_dir = ?V bin_dir" using view4_source[of ?V "[]"] by simp
  show ?thesis
  proof (cases "ok_mkdirs target_dir ?V")
    case False
    then show ?thesis by (simp add: ok_bundle_def)
  next
    case mk: True
    show ?thesis
    proof (cases "ok_mkdir server_target (view1 ?V)")
      case False
      then show ?thesis using ok_server_iff[OF mk] by (auto simp: ok_bundle_def)
    next
      case True
      show ?thesis
        unfolding ok_bundle_def ok_copy_iff[OF True] ok_rm_iff src
        using True ok_server_iff[OF mk] mk core by auto
    qed
  qed
qed

section \<open>A second run changes nothing\<close>

lemma graft_fixed:
  assumes "\<And>r. V (p @ r) = sub r"
  shows "graft p sub V = V"
proof (rule ext)
  fix q
  show "graft p sub V q = V q"
  proof (cases "prefix p q")
    case True
    then obtain r where "q = p @ r" by (auto simp: prefix_def)
    then show ?thesis using assms[of r] by (simp add: graft_def)
  next
    case False
    then show ?thesis by (simp add: graft_def)
  qed
qed

lemma v_sweep_fixed:
  assumes "\<And>n. \<not> exempt n \<Longrightarrow> entry_at root (d @ [n]) = None"
  shows "v_sweep d (entry_at root) = entry_at root"
proof (rule ext)
  fix q
  show "v_sweep d (entry_at root) q = entry_at root q"
  proof (cases "\<exists>n. \<not> exempt n \<and> prefix (d @ [n]) q")
    case True
    then obtain n r where n: "\<not> exempt n" "q = (d @ [n]) @ r" by (auto simp: prefix_def)
    have "entry_at root q = None"
      unfolding n(2) using assms[OF n(1)] by (rule entry_at_None_append)
    with True show ?thesis by (simp add: v_sweep_def)
  next
    case False
    then show ?thesis by (auto simp: v_sweep_def)
  qed
qed

lemma v_bundle_fixed:
  assumes ok: "ok_bundle (entry_at root)"
    and v: "entry_at root' = v_bundle (entry_at root)"
  shows "ok_bundle (entry_at root')" and "v_bundle (entry_at root') = entry_at root'"
    and "view1 (entry_at root') = entry_at root'"
    and "view2 (entry_at root') = entry_at root'"
    and "view3 (entry_at root') = entry_at root'"
    and "view4 (entry_at root') = graft (target_dir @ [''bin'']) absent (entry_at root')"
    and "view5 (entry_at root') = entry_at root'"
    and "view6 (entry_at root') = entry_at root'"
    and "copy_dst bundled_server (server_target @ [''bundled.js'']) (entry_at root') =
         copy_dst bundled_server (server_target @ [''bundled.js'']) (entry_at root)"
proof -
  let ?V = "entry_at root" and ?W = "entry_at root'"
  let ?sb = "server_target @ [''bundled.js'']"
  let ?tb = "target_dir @ [''bin'']"
  from ok have o2: "ok_mkdir server_target (view1 ?V)" by (simp add: ok_bundle_def)
  from ok obtain c where art: "?V bundled_server = Some (Reg c)"
    and bin: "?V bin_dir = Some Directory"
    by (auto simp: ok_bundle_iff)
  have w_art: "?W bundled_server = Some (Reg c)"
    using art post_outside[of bundled_server ?V] by (simp add: v paths)
  have w_src: "?W (bin_dir @ r) = ?V (bin_dir @ r)" for r
    using post_outside[of "bin_dir @ r" ?V] by (simp add: v paths)
  have w_bin: "?W (?tb @ r) = ?V (bin_dir @ r)" for r
    using post_bin[of ?V r] by (simp add: v)
  have w_anc: "?W q = Some Directory" if "prefix q target_dir" for q
    using post_ancestors[OF that, of ?V] by (simp add: v)
  have w_srv: "?W server_target = Some Directory"
    using post_server[OF o2] by (simp add: v)
  have w_sb: "?W ?sb = (if ?V ?sb = Some Directory then Some Directory else Some (Reg c))"
    using post_artifact(2)[OF art] by (simp add: v)
  have w_dst: "?W (copy_dst bundled_server ?sb ?V) = Some (Reg c)"
    using post_artifact(1)[OF art] by (simp add: v)
  have same_dst: "copy_dst bundled_server ?sb ?W = copy_dst bundled_server ?sb ?V"
    by (simp add: sb_cases w_sb)
  have w_sbb: "?W (?sb @ [''bundled.js'']) \<noteq> Some Directory"
  proof (cases "?V ?sb = Some Directory")
    case True
    with w_dst show ?thesis by (simp add: sb_cases)
  next
    case False
    with w_sb have "?W ?sb = Some (Reg c)" by simp
    from entry_at_Reg_append[OF this, of "[''bundled.js'']"] show ?thesis by simp
  qed
  have w_swept: "?W (server_target @ [n]) = None" if "\<not> exempt n" for n
    using post_swept[OF that, of ?V] by (simp add: v)
  have w_init: "?W (target_dir @ [''__init__.py'']) \<noteq> None"
    using post_init[of root] by (simp add: v split: option.splits)
  have w_tb: "?W ?tb = Some Directory" using w_bin[of "[]"] bin by simp
  show ok': "ok_bundle ?W"
    unfolding ok_bundle_iff
    using w_art w_src[of "[]"] bin w_anc w_srv w_sbb w_tb
    by (simp add: ok_mkdirs_def)
  have f1: "view1 ?W = ?W"
    unfolding view1_def by (rule v_mkdirs_fixed[OF refl]) (simp add: w_anc)
  have f2: "view2 ?W = ?W" by (simp add: view2_def f1 v_mkdir_def w_srv)
  have f3: "view3 ?W = ?W"
    unfolding view3_def f2 v_copy_def same_dst w_art
    by (rule graft_fixed) (simp add: entry_at_Reg_append[OF w_dst] leaf_def)
  have f4: "view4 ?W = graft ?tb absent ?W" by (simp add: view4_def f3 v_rm_def w_tb)
  moreover have "graft ?tb absent ?W (bin_dir @ r) = ?W (bin_dir @ r)" for r
    by (simp add: graft_def paths)
  ultimately have "view5 ?W = graft ?tb (\<lambda>r. ?W (bin_dir @ r)) ?W"
    by (simp add: view5_def v_copytree_def)
  also have "\<dots> = ?W" by (rule graft_fixed) (use w_bin w_src in simp)
  finally have f5: "view5 ?W = ?W" .
  have f6: "view6 ?W = ?W"
    unfolding view6_def f5 by (rule v_sweep_fixed) (rule w_swept)
  show "v_bundle ?W = ?W" by (simp add: v_bundle_def f6 v_touch_def w_init)
  show "view1 ?W = ?W" by (rule f1)
  show "view2 ?W = ?W" by (rule f2)
  show "view3 ?W = ?W" by (rule f3)
  show "view4 ?W = graft ?tb absent ?W" by (rule f4)
  show "view5 ?W = ?W" by (rule f5)
  show "view6 ?W = ?W" by (rule f6)
  show "copy_dst bundled_server ?sb ?W = copy_dst bundled_server ?sb ?V" by (rule same_dst)
qed

section \<open>Runs with modes\<close>

lemma set_forget: "set (forget p ro) = {q \<in> set ro. \<not> prefix p q}"
  by (auto simp: forget_def)

lemma forget_subset: "set (forget p ro) \<subseteq> set ro"
  by (auto simp: forget_def)

lemma set_copystat_tree:
  "set (copystat_tree src dst ro) = {dst @ r |r. src @ r \<in> set ro}"
proof -
  have "dst @ drop (length src) q = dst @ r \<and> src @ r \<in> set ro"
    if "q \<in> set ro" "prefix src q" "r = drop (length src) q" for q r
    using that by (auto simp: prefix_def)
  moreover have "dst @ r = dst @ drop (length src) (src @ r)" for r by simp
  ultimately show ?thesis
    unfolding copystat_tree_def by (auto simp: image_iff) force
qed

lemma copymode_subset: "set (copymode src d ro) \<subseteq> set ro \<union> {d}"
  by (auto simp: copymode_def forget_def)

lemma copymode_dst: "d \<in> set (copymode src d ro) \<longleftrightarrow> src \<in> set ro"
  by (auto simp: copymode_def forget_def)

subsection \<open>Path.mkdir\<close>

lemma os_mkdir_m_Inr:
  "os_mkdir_m priv p (root, ro) = Inr s \<longleftrightarrow>
     (\<exists>root'. os_mkdir p root = Inr root' \<and> may_write priv ro (parent p) \<and>
        s = (root', forget p ro))"
  by (auto split: sum.splits)

lemma os_mkdir_m_Inl_plain:
  "os_mkdir p root = Inl e \<Longrightarrow> os_mkdir_m priv p (root, ro) = Inl e"
  by simp

lemma os_mkdir_m_FileNotFound:
  "os_mkdir_m priv p (root, ro) = Inl FileNotFoundError \<longleftrightarrow>
   os_mkdir p root = Inl FileNotFoundError"
  by (auto split: sum.splits if_splits)

lemma mkdir_m_noop:
  assumes "entry_at root p = Some Directory"
  shows "mkdir_m priv p parents True (root, ro) = Inr (root, ro)"
proof -
  have "os_mkdir p root = Inl FileExistsError" using assms by (simp add: os_mkdir_exists)
  then have "os_mkdir_m priv p (root, ro) = Inl FileExistsError" by simp
  then show ?thesis using assms
    by (simp add: mkdir_m.simps[of priv p parents True "(root, ro)"] is_dir_iff)
qed

lemma mkdir_m_plain:
  "mkdir_m priv p parents exist_ok s = Inr s' \<Longrightarrow>
   mkdir p parents exist_ok (fst s) = Inr (fst s') \<and> set (snd s') \<subseteq> set (snd s)"
proof (induction priv p parents exist_ok s arbitrary: s' rule: mkdir_m.induct)
  case (1 priv p parents exist_ok s)
  obtain root ro where s: "s = (root, ro)" by (cases s)
  show ?case
  proof (cases "os_mkdir_m priv p s")
    case (Inr t)
    with "1.prems" have t: "t = s'" by (simp add: mkdir_m.simps[of priv p parents exist_ok s])
    from Inr s obtain root' where "os_mkdir p root = Inr root'" "t = (root', forget p ro)"
      by (auto simp: os_mkdir_m_Inr simp del: os_mkdir_m.simps)
    with t s show ?thesis
      by (auto simp: mkdir.simps[of p parents exist_ok root] forget_def)
  next
    case (Inl e)
    show ?thesis
    proof (cases "e = FileNotFoundError")
      case True
      with Inl s have pl: "os_mkdir p root = Inl FileNotFoundError"
        by (simp add: os_mkdir_m_FileNotFound del: os_mkdir_m.simps)
      from "1.prems" Inl True have par: "parents" "parent p \<noteq> p"
        by (auto simp: mkdir_m.simps[of priv p parents exist_ok s] split: if_splits)
      have eq: "mkdir_m priv p parents exist_ok s =
          (case mkdir_m priv (parent p) True True s of
             Inl e' \<Rightarrow> Inl e' | Inr t \<Rightarrow> mkdir_m priv p False exist_ok t)"
        using Inl True par by (subst mkdir_m.simps) simp
      obtain t where
        t: "mkdir_m priv (parent p) True True s = Inr t"
        and u: "mkdir_m priv p False exist_ok t = Inr s'"
        using "1.prems" unfolding eq
        by (cases "mkdir_m priv (parent p) True True s") simp_all
      have nn: "\<not> (\<not> parents \<or> parent p = p)" using par by simp
      from "1.IH"(1)[OF Inl True nn t] have a: "mkdir (parent p) True True (fst s) = Inr (fst t)"
        "set (snd t) \<subseteq> set (snd s)" by simp_all
      from "1.IH"(2)[OF Inl True nn t u] have b: "mkdir p False exist_ok (fst t) = Inr (fst s')"
        "set (snd s') \<subseteq> set (snd t)" by simp_all
      have "mkdir p parents exist_ok root = Inr (fst s')"
        using a(1) b(1) pl par s by (subst mkdir.simps) simp
      with a(2) b(2) s show ?thesis by auto
    next
      case False
      with "1.prems" Inl have ok: "exist_ok" "is_dir (fst s) p" "s' = s"
        by (auto simp: mkdir_m.simps[of priv p parents exist_ok s] split: if_splits)
      from ok s have "os_mkdir p root = Inl FileExistsError"
        by (simp add: os_mkdir_exists is_dir_iff)
      then have "mkdir p parents exist_ok root = Inr root"
        using ok s by (subst mkdir.simps) simp
      with ok s show ?thesis by simp
    qed
  qed
qed

lemma makedirs_m_fresh:
  assumes "entry_at root dst = None" "dst \<noteq> []" "entry_at root (parent dst) = Some Directory"
  shows "mkdir_m priv dst True False (root, ro) =
           (if may_write priv ro (parent dst)
            then Inr (put dst (Some (Dir [])) root, forget dst ro)
            else Inl PermissionError)"
proof -
  have "os_mkdir dst root = Inr (put dst (Some (Dir [])) root)"
    using assms by (simp add: os_mkdir_Inr)
  then show ?thesis by (simp add: mkdir_m.simps[of priv dst True False "(root, ro)"])
qed

subsection \<open>shutil.copy\<close>

lemma shutil_copy_m_plain:
  assumes "shutil_copy_m priv src dst (root, ro) = Inr (root', ro')"
  shows "shutil_copy src dst root = Inr root'"
    and "set ro' \<subseteq> set ro \<union> {copy_dst src dst (entry_at root)}"
    and "copy_dst src dst (entry_at root) \<in> set ro' \<Longrightarrow> src \<in> set ro"
proof -
  let ?d = "copy_dst src dst (entry_at root)"
  have d: "(if is_dir root dst then dst @ [name src] else dst) = ?d"
    by (simp add: copy_dst_def is_dir_iff)
  from assms obtain ro1 where c: "copyfile_m priv src ?d (root, ro) = Inr (root', ro1)"
    and r: "ro' = copymode src ?d ro1"
    by (auto simp: d Let_def split: sum.splits)
  from c have pl: "copyfile src ?d root = Inr root'" and sub: "set ro1 \<subseteq> set ro"
    by (auto simp: forget_def split: sum.splits if_splits)
  from pl show "shutil_copy src dst root = Inr root'" by (simp add: shutil_copy_def d)
  from r sub copymode_subset[of src ?d ro1] show "set ro' \<subseteq> set ro \<union> {?d}" by auto
  show "src \<in> set ro" if "?d \<in> set ro'" using that r sub by (auto simp: copymode_dst)
qed

lemma shutil_copy_m_overwrite:
  assumes "shutil_copy src dst root = Inr root'"
    and "path_exists root (copy_dst src dst (entry_at root))"
    and "may_write priv ro (copy_dst src dst (entry_at root))"
  shows "shutil_copy_m priv src dst (root, ro) =
           Inr (root', copymode src (copy_dst src dst (entry_at root)) ro)"
proof -
  let ?d = "copy_dst src dst (entry_at root)"
  have d: "(if is_dir root dst then dst @ [name src] else dst) = ?d"
    by (simp add: copy_dst_def is_dir_iff)
  from assms(1) have "copyfile src ?d root = Inr root'" by (simp add: shutil_copy_def d)
  with assms(2,3) have "copyfile_m priv src ?d (root, ro) = Inr (root', ro)" by simp
  then show ?thesis by (simp add: d Let_def)
qed

subsection \<open>shutil.rmtree\<close>

lemma rm_if_exists_m_plain:
  assumes "(if path_exists root p then shutil_rmtree_m priv p (root, ro) else Inr (root, ro)) =
             Inr (root', ro')"
  shows "(if path_exists root p then shutil_rmtree p root else Inr root) = Inr root'"
    and "set ro' \<subseteq> set ro"
  using assms by (auto simp: forget_def split: if_splits sum.splits)

lemma shutil_rmtree_m_total:
  assumes "shutil_rmtree p root = Inr root'"
    and "may_write priv ro (parent p)"
    and "\<And>q. q \<in> set ro \<Longrightarrow> prefix p q \<Longrightarrow> has_entries root q \<Longrightarrow> priv"
  shows "shutil_rmtree_m priv p (root, ro) = Inr (root', forget p ro)"
  using assms by (auto simp: list_all_iff)

lemma has_entries_Directory: "has_entries root q \<Longrightarrow> entry_at root q = Some Directory"
  by (auto simp: has_entries_def entry_at_Directory split: sum.splits node.splits list.splits)

subsection \<open>shutil.copytree\<close>

lemma shutil_copytree_m_plain:
  assumes "shutil_copytree_m priv src dst (root, ro) = Inr (root', ro')"
  shows "shutil_copytree src dst root = Inr root'"
proof -
  from assms obtain es t where es: "resolve root src = Inr (Dir es)"
    and t: "mkdir_m priv dst True False (root, ro) = Inr t"
    and r: "root' = put dst (Some (copy_node (Dir es))) (fst t)"
    by (auto split: sum.splits node.splits)
  from mkdir_m_plain[OF t] have "mkdir dst True False root = Inr (fst t)" by simp
  with es r show ?thesis by (simp add: shutil_copytree_def)
qed

lemma shutil_copytree_m_fresh:
  assumes "entry_at root dst = None" "dst \<noteq> []" "entry_at root (parent dst) = Some Directory"
  shows "shutil_copytree_m priv src dst (root, ro) = Inr (root', ro') \<longleftrightarrow>
           shutil_copytree src dst root = Inr root' \<and> may_write priv ro (parent dst) \<and>
           ro' = forget dst (forget dst ro) @ copystat_tree src dst ro"
  by (auto simp: makedirs_m_fresh[OF assms] makedirs_fresh[OF assms] shutil_copytree_def
           split: sum.splits node.splits)

subsection \<open>The sweep and the marker\<close>

lemma sweep_item_m_plain:
  assumes "sweep_item_m priv item (root, ro) = Inr (root', ro')"
  shows "sweep_item item root = Inr root'" and "set ro' \<subseteq> set ro"
  using assms by (auto simp: sweep_item_def forget_def split: if_splits sum.splits)

lemma sweep_m_plain:
  "sweep_m priv items s = Inr s' \<Longrightarrow>
   sweep items (fst s) = Inr (fst s') \<and> set (snd s') \<subseteq> set (snd s)"
proof (induction items arbitrary: s)
  case Nil
  then show ?case by simp
next
  case (Cons item items)
  then obtain t where t: "sweep_item_m priv item s = Inr t"
    and r: "sweep_m priv items t = Inr s'"
    by (auto split: sum.splits)
  from sweep_item_m_plain[of priv item "fst s" "snd s" "fst t" "snd t"] t
  have "sweep_item item (fst s) = Inr (fst t)" "set (snd t) \<subseteq> set (snd s)" by simp_all
  with Cons.IH[OF r] show ?case by auto
qed

lemma sweep_m_exempt:
  assumes "\<forall>item\<in>set items. exempt (name item)"
  shows "sweep_m priv items s = Inr s"
  using assms
proof (induction items)
  case Nil
  then show ?case by simp
next
  case (Cons item items)
  then have "exempt (name item)" by simp
  then have "sweep_item_m priv item s = Inr s" by (cases s) (auto simp: exempt_def)
  with Cons show ?case by simp
qed

lemma iterdir_names:
  assumes "iterdir d root = Inr items" and "item \<in> set items"
  shows "\<exists>n. item = d @ [n] \<and> entry_at root (d @ [n]) \<noteq> None"
proof -
  from assms(1) obtain es where es: "resolve root d = Inr (Dir es)"
    and it: "items = map (\<lambda>n. d @ [n]) (remdups (map fst es))"
    by (auto simp: iterdir_Inr)
  from assms(2) it obtain n where "item = d @ [n]" "n \<in> set (map fst es)" by auto
  with listed_iff[OF es, of n] show ?thesis by auto
qed

lemma touch_m_plain:
  assumes "touch_m priv p (root, ro) = Inr (root', ro')"
  shows "touch p root = Inr root'" and "set ro' \<subseteq> set ro"
  using assms by (auto simp: forget_def split: if_splits sum.splits)

lemma touch_m_exists:
  assumes "entry_at root p \<noteq> None"
  shows "touch_m priv p (root, ro) = Inr (root, ro)"
proof -
  have "touch p root = Inr root" using assms by (simp add: touch_Inr)
  with assms show ?thesis by (simp add: path_exists_iff)
qed

subsection \<open>The script\<close>

lemma bundle_server_m_steps:
  assumes "bundle_server_m mw = Returns True mw1"
  shows "\<exists>s1 s2 s3 s4 s5 items s6 s7.
     path_exists (fs (plain mw)) core_dir \<and> path_exists (fs (plain mw)) bundled_server \<and>
     path_exists (fs (plain mw)) bin_dir \<and>
     mkdir_m (privileged mw) target_dir True True (fs (plain mw), read_only mw) = Inr s1 \<and>
     mkdir_m (privileged mw) server_target False True s1 = Inr s2 \<and>
     shutil_copy_m (privileged mw) bundled_server (server_target @ [''bundled.js'']) s2 = Inr s3 \<and>
     (if path_exists (fst s3) (target_dir @ [''bin''])
      then shutil_rmtree_m (privileged mw) (target_dir @ [''bin'']) s3 else Inr s3) = Inr s4 \<and>
     shutil_copytree_m (privileged mw) bin_dir (target_dir @ [''bin'']) s4 = Inr s5 \<and>
     iterdir server_target (fst s5) = Inr items \<and>
     sweep_m (privileged mw) items s5 = Inr s6 \<and>
     touch_m (privileged mw) (target_dir @ [''__init__.py'']) s6 = Inr s7 \<and>
     mw1 = leave mw
       (print_out (''Copying bin from '' @ str_path bin_dir @ '' to ''
                 @ str_path (target_dir @ [''bin'']) @ ''...'')
         (print_out (''Copying bundled server from '' @ str_path bundled_server @ ''...'')
           (plain mw))) s7"
proof -
  let ?priv = "privileged mw"
  note defs = bundle_server_m_def Let_def
  have c1: "path_exists (fs (plain mw)) core_dir"
    using assms by (cases "path_exists (fs (plain mw)) core_dir") (simp_all add: defs)
  have c2: "path_exists (fs (plain mw)) bundled_server"
    using assms c1 by (cases "path_exists (fs (plain mw)) bundled_server") (simp_all add: defs)
  have c3: "path_exists (fs (plain mw)) bin_dir"
    using assms c1 c2 by (cases "path_exists (fs (plain mw)) bin_dir") (simp_all add: defs)
  obtain s1 where s1: "mkdir_m ?priv target_dir True True (fs (plain mw), read_only mw) = Inr s1"
    using assms c1 c2 c3
    by (cases "mkdir_m ?priv target_dir True True (fs (plain mw), read_only mw)")
       (simp_all add: defs)
  obtain s2 where s2: "mkdir_m ?priv server_target False True s1 = Inr s2"
    using assms c1 c2 c3 s1
    by (cases "mkdir_m ?priv server_target False True s1") (simp_all add: defs)
  obtain s3 where s3: "shutil_copy_m ?priv bundled_server (server_target @ [''bundled.js'']) s2 = Inr s3"
    using assms c1 c2 c3 s1 s2
    by (cases "shutil_copy_m ?priv bundled_server (server_target @ [''bundled.js'']) s2")
       (simp_all add: defs)
  let ?rm = "if path_exists (fst s3) (target_dir @ [''bin''])
      then shutil_rmtree_m ?priv (target_dir @ [''bin'']) s3 else Inr s3"
  obtain s4 where s4: "?rm = Inr s4"
    using assms c1 c2 c3 s1 s2 s3 by (cases ?rm) (simp_all add: defs)
  obtain s5 where s5: "shutil_copytree_m ?priv bin_dir (target_dir @ [''bin'']) s4 = Inr s5"
    using assms c1 c2 c3 s1 s2 s3 s4
    by (cases "shutil_copytree_m ?priv bin_dir (target_dir @ [''bin'']) s4") (simp_all add: defs)
  obtain items where it: "iterdir server_target (fst s5) = Inr items"
    using assms c1 c2 c3 s1 s2 s3 s4 s5
    by (cases "iterdir server_target (fst s5)") (simp_all add: defs)
  obtain s6 where s6: "sweep_m ?priv items s5 = Inr s6"
    using assms c1 c2 c3 s1 s2 s3 s4 s5 it
    by (cases "sweep_m ?priv items s5") (auto simp: defs)
  obtain s7 where s7: "touch_m ?priv (target_dir @ [''__init__.py'']) s6 = Inr s7"
    using assms c1 c2 c3 s1 s2 s3 s4 s5 it s6
    by (cases "touch_m ?priv (target_dir @ [''__init__.py'']) s6") (simp_all add: defs)
  have "mw1 = leave mw
       (print_out (''Copying bin from '' @ str_path bin_dir @ '' to ''
                 @ str_path (target_dir @ [''bin'']) @ ''...'')
         (print_out (''Copying bundled server from '' @ str_path bundled_server @ ''...'')
           (plain mw))) s7"
    using assms c1 c2 c3 s1 s2 s3 s4 s5 it s6 s7 by (simp add: defs)
  with c1 c2 c3 s1 s2 s3 s4 s5 it s6 s7 show ?thesis by blast
qed

lemma fst_leave [simp]: "fs (plain (leave mw w s)) = fst s"
  by (simp add: leave_def)

lemma snd_leave [simp]: "read_only (leave mw w s) = snd s"
  by (simp add: leave_def)

lemma privileged_leave [simp]: "privileged (leave mw w s) = privileged mw"
  by (simp add: leave_def)

lemma plain_leave: "plain (leave mw w s) = w\<lparr>fs := fst s\<rparr>"
  by (simp add: leave_def)

lemma bundle_server_m_run:
  assumes run: "bundle_server_m mw = Returns True mw1"
  shows "bundle_server (plain mw) = Return True (plain mw1)"
    and "privileged mw1 = privileged mw"
    and "may_write (privileged mw) (read_only mw1) target_dir"
    and "copy_dst bundled_server (server_target @ [''bundled.js'']) (entry_at (fs (plain mw)))
           \<in> set (read_only mw1) \<Longrightarrow> bundled_server \<in> set (read_only mw)"
    and "q \<in> set (read_only mw1) \<Longrightarrow> prefix (target_dir @ [''bin'']) q \<Longrightarrow>
         \<exists>r. q = (target_dir @ [''bin'']) @ r \<and> bin_dir @ r \<in> set (read_only mw)"
    and "bundled_server \<in> set (read_only mw1) \<Longrightarrow> bundled_server \<in> set (read_only mw)"
proof -
  let ?priv = "privileged mw" and ?V = "entry_at (fs (plain mw))"
  let ?tb = "target_dir @ [''bin'']" and ?sb = "server_target @ [''bundled.js'']"
  let ?d = "copy_dst bundled_server ?sb ?V"
  from bundle_server_m_steps[OF run] obtain s1 s2 s3 s4 s5 items s6 s7 where
    chk: "path_exists (fs (plain mw)) core_dir" "path_exists (fs (plain mw)) bundled_server"
         "path_exists (fs (plain mw)) bin_dir"
    and m1: "mkdir_m ?priv target_dir True True (fs (plain mw), read_only mw) = Inr s1"
    and m2: "mkdir_m ?priv server_target False True s1 = Inr s2"
    and m3: "shutil_copy_m ?priv bundled_server ?sb s2 = Inr s3"
    and m4: "(if path_exists (fst s3) ?tb then shutil_rmtree_m ?priv ?tb s3 else Inr s3) = Inr s4"
    and m5: "shutil_copytree_m ?priv bin_dir ?tb s4 = Inr s5"
    and m6: "iterdir server_target (fst s5) = Inr items" "sweep_m ?priv items s5 = Inr s6"
    and m7: "touch_m ?priv (target_dir @ [''__init__.py'']) s6 = Inr s7"
    and mw1: "mw1 = leave mw
       (print_out (''Copying bin from '' @ str_path bin_dir @ '' to ''
                 @ str_path ?tb @ ''...'')
         (print_out (''Copying bundled server from '' @ str_path bundled_server @ ''...'')
           (plain mw))) s7"
    by blast
  \<comment> \<open>the trees are those of the run without modes\<close>
  from mkdir_m_plain[OF m1] have p1: "mkdir target_dir True True (fs (plain mw)) = Inr (fst s1)"
    and r1: "set (snd s1) \<subseteq> set (read_only mw)" by simp_all
  from mkdir_m_plain[OF m2] have p2: "mkdir server_target False True (fst s1) = Inr (fst s2)"
    and r2: "set (snd s2) \<subseteq> set (snd s1)" by simp_all
  from m3 have m3': "shutil_copy_m ?priv bundled_server ?sb (fst s2, snd s2) = Inr (fst s3, snd s3)"
    by simp
  note c3 = shutil_copy_m_plain[OF m3']
  from m4 have m4': "(if path_exists (fst s3) ?tb
      then shutil_rmtree_m ?priv ?tb (fst s3, snd s3) else Inr (fst s3, snd s3)) = Inr (fst s4, snd s4)"
    by (simp only: prod.collapse)
  note c4 = rm_if_exists_m_plain[OF m4']
  from m5 have m5': "shutil_copytree_m ?priv bin_dir ?tb (fst s4, snd s4) = Inr (fst s5, snd s5)"
    by simp
  note p5 = shutil_copytree_m_plain[OF m5']
  from sweep_m_plain[OF m6(2)] have p6: "sweep items (fst s5) = Inr (fst s6)"
    and r6: "set (snd s6) \<subseteq> set (snd s5)" by simp_all
  from m7 have m7': "touch_m ?priv (target_dir @ [''__init__.py'']) (fst s6, snd s6) =
      Inr (fst s7, snd s7)" by simp
  note c7 = touch_m_plain[OF m7']
  show plain_run: "bundle_server (plain mw) = Return True (plain mw1)"
    unfolding bundle_server_def Let_def
    using chk p1 p2 c3(1) c4(1) p5 m6(1) p6 c7(1)
    by (simp add: mw1 plain_leave print_out_def)
  show "privileged mw1 = privileged mw" by (simp add: mw1)
  \<comment> \<open>the views of the intermediate trees\<close>
  have v1: "entry_at (fst s1) = view1 ?V"
    using mkdir_parents_view[OF p1] by (simp add: view1_def)
  have v2: "ok_mkdir server_target (view1 ?V)" "entry_at (fst s2) = view2 ?V"
    using mkdir_exist_ok_view[OF p2] by (simp_all add: view2_def v1)
  have v3: "entry_at (fst s3) = view3 ?V"
    using shutil_copy_view[OF c3(1)] by (simp add: view3_def v2)
  have v4: "entry_at (fst s4) = view4 ?V"
    using rm_if_exists_view[OF c4(1)] by (simp add: view4_def v3)
  have d2: "copy_dst bundled_server ?sb (entry_at (fst s2)) = ?d"
    using view2_below_server[of "fs (plain mw)" "''bundled.js''" "[]"]
    by (simp add: sb_cases v2)
  have fresh: "entry_at (fst s4) ?tb = None" "?tb \<noteq> []"
      "entry_at (fst s4) (parent ?tb) = Some Directory"
    by (simp_all add: v4 view4_bin view4_target)
  have "shutil_copytree_m ?priv bin_dir ?tb (fst s4, snd s4) = Inr (fst s5, snd s5) \<longleftrightarrow>
          shutil_copytree bin_dir ?tb (fst s4) = Inr (fst s5) \<and>
          may_write ?priv (snd s4) (parent ?tb) \<and>
          snd s5 = forget ?tb (forget ?tb (snd s4)) @ copystat_tree bin_dir ?tb (snd s4)"
    by (rule shutil_copytree_m_fresh[OF fresh])
  with m5' have w5': "may_write ?priv (snd s4) (parent ?tb)"
    and r5: "snd s5 = forget ?tb (forget ?tb (snd s4)) @ copystat_tree bin_dir ?tb (snd s4)"
    by blast+
  from w5' have w5: "may_write ?priv (snd s4) target_dir" by simp
  \<comment> \<open>what is read-only at the end was read-only before, or was copied so\<close>
  have r7: "set (read_only mw1) \<subseteq> set (snd s5)" using c7(2) r6 by (auto simp: mw1)
  have r4: "set (snd s4) \<subseteq> set (read_only mw) \<union> {?d}"
    using c4(2) c3(2) r2 r1 by (auto simp: d2)
  have in5: "q \<in> set (snd s4) \<and> \<not> prefix ?tb q \<or>
             (\<exists>r. q = ?tb @ r \<and> bin_dir @ r \<in> set (snd s4))"
    if "q \<in> set (snd s5)" for q
    using that unfolding r5 by (auto simp: set_forget set_copystat_tree)
  have d_apart: "\<not> prefix ?tb ?d" "\<And>r. ?d \<noteq> bin_dir @ r" "?d \<noteq> target_dir"
    "?d \<noteq> bundled_server"
    by (simp_all add: copy_dst_def name_def paths)
  show "may_write ?priv (read_only mw1) target_dir"
  proof (cases "target_dir \<in> set (read_only mw1)")
    case True
    with r7 in5[of target_dir] have "target_dir \<in> set (snd s4)" by (auto simp: prefix_def)
    with w5 show ?thesis by (simp add: may_write_def)
  next
    case False
    then show ?thesis by (simp add: may_write_def)
  qed
  show "bundled_server \<in> set (read_only mw)" if "?d \<in> set (read_only mw1)"
  proof -
    from that r7 in5[of ?d] d_apart(1) have "?d \<in> set (snd s4)" by (auto simp: prefix_def)
    with c4(2) have "?d \<in> set (snd s3)" by auto
    with c3(3) d2 have "bundled_server \<in> set (snd s2)" by simp
    with r2 r1 show ?thesis by auto
  qed
  show "\<exists>r. q = ?tb @ r \<and> bin_dir @ r \<in> set (read_only mw)"
    if "q \<in> set (read_only mw1)" "prefix ?tb q" for q
  proof -
    from that r7 in5[of q] obtain r where q: "q = ?tb @ r" "bin_dir @ r \<in> set (snd s4)"
      by auto
    with r4 d_apart(2)[of r] have "bin_dir @ r \<in> set (read_only mw)" by auto
    with q show ?thesis by blast
  qed
  show "bundled_server \<in> set (read_only mw)" if "bundled_server \<in> set (read_only mw1)"
  proof -
    have "\<And>r. bundled_server \<noteq> ?tb @ r" by (simp add: paths)
    with that r7 in5[of bundled_server] have "bundled_server \<in> set (snd s4)" by auto
    with r4 d_apart(4) show ?thesis by auto
  qed
qed

section \<open>The runs of the example states\<close>

lemmas eval_defs = bundle_server_def world_of_def sdk_with_def core_ok_def progress_def
  script_file_def script_dir_def core_dir_def target_dir_def server_dist_def
  bundled_server_def bin_dir_def server_target_def parent_def name_def
  path_exists_def is_dir_def os_mkdir_def mkdir.simps touch_def unlink_def iterdir_def
  copyfile_def shutil_copy_def shutil_rmtree_def shutil_copytree_def sweep_item_def
  print_out_def print_err_def Let_def entry_at_def lookup_def

lemmas eval_m_defs = bundle_server_m_def mkdir_m.simps may_write_def forget_def
  has_entries_def copymode_def copystat_tree_def leave_def with_modes_def

lemma run_fresh: "bundle_server w_fresh = Return True w_fresh_done"
  by (simp add: w_fresh_def w_fresh_done_def eval_defs)

lemma run_prior: "bundle_server w_prior = Return True w_prior_done"
  by (simp add: w_prior_def w_prior_done_def eval_defs)

lemma run_odd: "bundle_server w_odd = Return True w_odd_done"
  by (simp add: w_odd_def w_odd_done_def eval_defs)

lemma run_pmxt_file: "bundle_server w_pmxt_file = Raise NotADirectoryError w_pmxt_file"
  by (simp add: w_pmxt_file_def eval_defs)

lemma run_artifact_dir:
  "bundle_server w_artifact_dir = Raise IsADirectoryError w_artifact_dir_failed"
  by (simp add: w_artifact_dir_def w_artifact_dir_failed_def eval_defs)

lemma run_bin_file: "bundle_server w_bin_file = Raise NotADirectoryError w_bin_file_failed"
  by (simp add: w_bin_file_def w_bin_file_failed_def eval_defs)

section \<open>The claims\<close>

text \<open>
  C1, as the code has it. The claim lets the file system be anything outside the paths it
  names, and then it fails: in \<open>w_pmxt_file\<close> the core directory, the artifact and the
  bin directory are in place and there is no target directory, but \<^verbatim>\<open>sdks/python/pmxt\<close> is
  a regular file, so that \<^verbatim>\<open>target_dir.mkdir(parents=True, exist_ok=True)\<close> raises
  \<^verbatim>\<open>NotADirectoryError\<close> and \<open>bundle_server\<close> returns nothing.
\<close>

theorem fresh_run_counterexample:
  "path_exists (fs w_pmxt_file) core_dir \<and>
   entry_at (fs w_pmxt_file) bundled_server = Some (Reg ''js'') \<and>
   entry_at (fs w_pmxt_file) bin_dir = Some Directory \<and>
   \<not> path_exists (fs w_pmxt_file) target_dir \<and>
   bundle_server w_pmxt_file = Raise NotADirectoryError w_pmxt_file"
  by (simp add: w_pmxt_file_def eval_defs)

text \<open>
  C1, amended: when the core directory exists, the artifact is a regular file, the bin
  directory is a directory, the target directory does not exist and every proper ancestor
  of the target directory that exists is a directory, \<open>bundle_server\<close> returns \<open>True\<close>, and
  afterwards \<^verbatim>\<open>pmxt/_server/server/bundled.js\<close> is a regular file with the content of the
  artifact, \<^verbatim>\<open>pmxt/_server/bin\<close> shows at every relative path what the source bin directory
  shows there, and \<^verbatim>\<open>pmxt/_server/__init__.py\<close> is an empty regular file.
\<close>

theorem fresh_run:
  assumes "path_exists (fs w) core_dir"
    and "entry_at (fs w) bundled_server = Some (Reg c)"
    and "entry_at (fs w) bin_dir = Some Directory"
    and "\<not> path_exists (fs w) target_dir"
    and "\<forall>q. strict_prefix q target_dir \<longrightarrow> path_exists (fs w) q \<longrightarrow> is_dir (fs w) q"
  shows "\<exists>w'. bundle_server w = Return True w' \<and>
           entry_at (fs w') (target_dir @ [''server'', ''bundled.js'']) = Some (Reg c) \<and>
           (\<forall>r. entry_at (fs w') (target_dir @ [''bin''] @ r) = entry_at (fs w) (bin_dir @ r)) \<and>
           entry_at (fs w') (target_dir @ [''__init__.py'']) = Some (Reg [])"
proof -
  let ?V = "entry_at (fs w)"
  have none: "?V target_dir = None" using assms(4) by (simp add: path_exists_iff)
  have below: "?V (target_dir @ r) = None" for r
    using none by (rule entry_at_None_append)
  have mk: "ok_mkdirs target_dir ?V"
    unfolding ok_mkdirs_def
  proof (intro allI impI)
    fix q assume q: "prefix q target_dir"
    show "?V q = None \<or> ?V q = Some Directory"
    proof (cases "q = target_dir")
      case True
      with none show ?thesis by simp
    next
      case False
      with q have "strict_prefix q target_dir" by (simp add: strict_prefix_def)
      with assms(5) show ?thesis by (auto simp: path_exists_iff is_dir_iff)
    qed
  qed
  have "ok_bundle ?V"
    unfolding ok_bundle_iff
    using assms(2,3) mk below[of "[''server'']"] below[of "[''server'', ''bundled.js'', ''bundled.js'']"]
      below[of "[''bin'']"]
    by (simp add: server_target_def)
  from bundle_server_total[OF this] obtain w' where run: "bundle_server w = Return True w'"
    by blast
  note v = bundle_server_True(2)[OF run]
  have "entry_at (fs w') (server_target @ [''bundled.js'']) = Some (Reg c)"
    using post_artifact(2)[OF assms(2)] below[of "[''server'', ''bundled.js'']"]
    by (simp add: v server_target_def)
  moreover have "entry_at (fs w') (target_dir @ [''bin''] @ r) = ?V (bin_dir @ r)" for r
    unfolding v by (rule post_bin)
  moreover have "entry_at (fs w') (target_dir @ [''__init__.py'']) = Some (Reg [])"
    using post_init[of "fs w"] below[of "[''__init__.py'']"] by (simp add: v)
  ultimately show ?thesis using run by (auto simp: server_target_def)
qed

lemma strict_prefix_Cons_iff:
  "strict_prefix q (x # xs) \<longleftrightarrow> q = [] \<or> (\<exists>t. q = x # t \<and> strict_prefix t xs)"
  by (cases q) auto

lemma ancestors_of_target:
  "strict_prefix q target_dir \<longleftrightarrow>
   q = [] \<or> q = [''sdks''] \<or> q = [''sdks'', ''python''] \<or> q = [''sdks'', ''python'', ''pmxt'']"
  unfolding paths by (simp add: strict_prefix_Cons_iff) blast

theorem fresh_run_witness:
  "path_exists (fs w_fresh) core_dir \<and>
   entry_at (fs w_fresh) bundled_server = Some (Reg ''js'') \<and>
   entry_at (fs w_fresh) bin_dir = Some Directory \<and>
   \<not> path_exists (fs w_fresh) target_dir \<and>
   bundle_server w_fresh = Return True w_fresh_done \<and>
   entry_at (fs w_fresh_done) (target_dir @ [''server'', ''bundled.js'']) = Some (Reg ''js'') \<and>
   (\<forall>r. entry_at (fs w_fresh_done) (target_dir @ [''bin''] @ r) =
        entry_at (fs w_fresh) (bin_dir @ r)) \<and>
   entry_at (fs w_fresh_done) (target_dir @ [''__init__.py'']) = Some (Reg [])"
proof -
  have h: "path_exists (fs w_fresh) core_dir"
    "entry_at (fs w_fresh) bundled_server = Some (Reg ''js'')"
    "entry_at (fs w_fresh) bin_dir = Some Directory"
    "\<not> path_exists (fs w_fresh) target_dir"
    by (simp_all add: w_fresh_def eval_defs)
  have anc: "\<forall>q. strict_prefix q target_dir \<longrightarrow>
      path_exists (fs w_fresh) q \<longrightarrow> is_dir (fs w_fresh) q"
    by (auto simp: ancestors_of_target w_fresh_def world_of_def sdk_with_def core_ok_def
          path_exists_def is_dir_def)
  from fresh_run[OF h anc] run_fresh h show ?thesis by auto
qed

text \<open>
  C2, as the code has it. The sweep keeps an entry for its name alone, and
  \<^verbatim>\<open>shutil.copy\<close> copies into a destination that is a directory. In \<open>w_odd\<close> the \<^verbatim>\<open>server\<close>
  subdirectory holds a directory named \<^verbatim>\<open>bundled.js\<close> and a regular file named
  \<^verbatim>\<open>__pycache__\<close>; the run returns \<open>True\<close>, and afterwards \<^verbatim>\<open>server/bundled.js\<close> is still a
  directory (the artifact is inside it) and \<^verbatim>\<open>server/__pycache__\<close> is still a regular file.
  So the subdirectory does not contain exactly the artifact file plus optionally a cache
  directory.
\<close>

theorem server_dir_counterexample:
  "bundle_server w_odd = Return True w_odd_done \<and>
   entry_at (fs w_odd_done) (server_target @ [''bundled.js'']) = Some Directory \<and>
   entry_at (fs w_odd_done) (server_target @ [''bundled.js'', ''bundled.js'']) = Some (Reg ''js'') \<and>
   entry_at (fs w_odd_done) (server_target @ [''__pycache__'']) = Some (Reg ''c'')"
  by (simp add: w_odd_def w_odd_done_def eval_defs)

text \<open>
  C2, amended: after a run that returned \<open>True\<close>, whatever the \<^verbatim>\<open>server\<close> subdirectory held
  before, every entry in it is named \<^verbatim>\<open>bundled.js\<close> or \<^verbatim>\<open>__pycache__\<close>. The entry
  \<^verbatim>\<open>bundled.js\<close> is a regular file with the content of the artifact, unless a directory of
  that name was there before the run: then it is still that directory and the artifact is
  the file \<^verbatim>\<open>bundled.js\<close> inside it. The entry \<^verbatim>\<open>__pycache__\<close> is what it was before the run,
  of whatever kind, or absent if it was absent.
\<close>

theorem server_dir_after_run:
  assumes "bundle_server w = Return True w'"
  shows "(\<forall>n. path_exists (fs w') (server_target @ [n]) \<longrightarrow>
              n = ''bundled.js'' \<or> n = ''__pycache__'') \<and>
         (\<exists>c. entry_at (fs w) bundled_server = Some (Reg c) \<and>
              entry_at (fs w') (server_target @ [''bundled.js'']) =
                (if is_dir (fs w) (server_target @ [''bundled.js''])
                 then Some Directory else Some (Reg c)) \<and>
              (is_dir (fs w) (server_target @ [''bundled.js'']) \<longrightarrow>
                 entry_at (fs w') (server_target @ [''bundled.js'', ''bundled.js'']) =
                   Some (Reg c))) \<and>
         (\<forall>r. entry_at (fs w') (server_target @ ''__pycache__'' # r) =
              entry_at (fs w) (server_target @ ''__pycache__'' # r))"
proof -
  let ?V = "entry_at (fs w)"
  note v = bundle_server_True(2)[OF assms]
  from bundle_server_True(1)[OF assms] obtain c where art: "?V bundled_server = Some (Reg c)"
    by (auto simp: ok_bundle_iff)
  have names: "n = ''bundled.js'' \<or> n = ''__pycache__''"
    if "path_exists (fs w') (server_target @ [n])" for n
  proof (rule ccontr)
    assume "\<not> (n = ''bundled.js'' \<or> n = ''__pycache__'')"
    then have "\<not> exempt n" by (simp add: exempt_def)
    from post_swept[OF this, of ?V] that show False by (simp add: path_exists_iff v)
  qed
  have sb: "entry_at (fs w') (server_target @ [''bundled.js'']) =
      (if is_dir (fs w) (server_target @ [''bundled.js'']) then Some Directory else Some (Reg c))"
    using post_artifact(2)[OF art] by (simp add: v is_dir_iff)
  have sbb: "entry_at (fs w') (server_target @ [''bundled.js'', ''bundled.js'']) = Some (Reg c)"
    if "is_dir (fs w) (server_target @ [''bundled.js''])"
    using post_artifact(1)[OF art] that by (simp add: v is_dir_iff sb_cases)
  have pc: "entry_at (fs w') (server_target @ ''__pycache__'' # r) =
      ?V (server_target @ ''__pycache__'' # r)" for r
    unfolding v by (rule post_pycache)
  from names art sb sbb pc show ?thesis by blast
qed

theorem server_dir_after_run_witness:
  "bundle_server w_prior = Return True w_prior_done \<and>
   path_exists (fs w_prior) (server_target @ [''old.js'']) \<and>
   path_exists (fs w_prior) (server_target @ [''tmp'']) \<and>
   entry_at (fs w_prior) (server_target @ [''bundled.js'']) = Some (Reg ''stale'') \<and>
   \<not> path_exists (fs w_prior_done) (server_target @ [''old.js'']) \<and>
   \<not> path_exists (fs w_prior_done) (server_target @ [''tmp'']) \<and>
   entry_at (fs w_prior_done) (server_target @ [''bundled.js'']) = Some (Reg ''js'')"
proof -
  have a: "path_exists (fs w_prior) (server_target @ [''old.js''])"
    "path_exists (fs w_prior) (server_target @ [''tmp''])"
    "entry_at (fs w_prior) (server_target @ [''bundled.js'']) = Some (Reg ''stale'')"
    "entry_at (fs w_prior) bundled_server = Some (Reg ''js'')"
    "\<not> is_dir (fs w_prior) (server_target @ [''bundled.js''])"
    by (simp_all add: w_prior_def eval_defs)
  from server_dir_after_run[OF run_prior]
  have n: "path_exists (fs w_prior_done) (server_target @ [n]) \<Longrightarrow>
      n = ''bundled.js'' \<or> n = ''__pycache__''" for n by blast
  from server_dir_after_run[OF run_prior] a(4,5)
  have b: "entry_at (fs w_prior_done) (server_target @ [''bundled.js'']) = Some (Reg ''js'')"
    by auto
  from n[of "''old.js''"] n[of "''tmp''"] a b run_prior show ?thesis by auto
qed

text \<open>
  C3. After a run that returned \<open>True\<close>, the destination bin directory is a directory and
  shows at every relative path exactly what the source bin directory showed there when the
  run started: the same entries with the same contents, and nothing at a path where the
  source has nothing, whatever the destination held before. The source itself is unchanged.
\<close>

theorem bin_is_mirrored:
  assumes "bundle_server w = Return True w'"
  shows "entry_at (fs w') (target_dir @ [''bin'']) = Some Directory \<and>
         (\<forall>r. entry_at (fs w') (target_dir @ [''bin''] @ r) = entry_at (fs w) (bin_dir @ r)) \<and>
         (\<forall>r. entry_at (fs w') (bin_dir @ r) = entry_at (fs w) (bin_dir @ r))"
proof -
  let ?V = "entry_at (fs w)"
  note v = bundle_server_True(2)[OF assms]
  from bundle_server_True(1)[OF assms] have bin: "?V bin_dir = Some Directory"
    by (simp add: ok_bundle_iff)
  have m: "entry_at (fs w') (target_dir @ [''bin''] @ r) = ?V (bin_dir @ r)" for r
    unfolding v by (rule post_bin)
  have s: "entry_at (fs w') (bin_dir @ r) = ?V (bin_dir @ r)" for r
    unfolding v by (rule post_outside) (simp_all add: paths)
  from m[of "[]"] bin m s show ?thesis by simp
qed

theorem bin_is_mirrored_witness:
  "bundle_server w_prior = Return True w_prior_done \<and>
   entry_at (fs w_prior) (target_dir @ [''bin'', ''gone'']) = Some (Reg ''g'') \<and>
   entry_at (fs w_prior) (bin_dir @ [''gone'']) = None \<and>
   entry_at (fs w_prior_done) (target_dir @ [''bin'', ''gone'']) = None \<and>
   entry_at (fs w_prior_done) (target_dir @ [''bin'', ''pmxt-server'']) = Some (Reg ''run'') \<and>
   (\<forall>r. entry_at (fs w_prior_done) (target_dir @ [''bin''] @ r) =
        entry_at (fs w_prior) (bin_dir @ r))"
proof -
  have a: "entry_at (fs w_prior) (target_dir @ [''bin'', ''gone'']) = Some (Reg ''g'')"
    "entry_at (fs w_prior) (bin_dir @ [''gone'']) = None"
    "entry_at (fs w_prior) (bin_dir @ [''pmxt-server'']) = Some (Reg ''run'')"
    by (simp_all add: w_prior_def eval_defs)
  from bin_is_mirrored[OF run_prior]
  have m: "entry_at (fs w_prior_done) (target_dir @ [''bin''] @ r) =
      entry_at (fs w_prior) (bin_dir @ r)" for r by blast
  from m[of "[''gone'']"] m[of "[''pmxt-server'']"] m a run_prior show ?thesis by simp
qed

text \<open>
  C4. When the core directory does not exist, \<open>bundle_server\<close> prints its diagnostic (two
  lines) to the error stream and returns \<open>False\<close>; the state it leaves differs from the
  state it found in the error stream only, so that the file system is unchanged and the
  target directory has not been created.
\<close>

theorem missing_core_fails_without_mutation:
  assumes "\<not> path_exists (fs w) core_dir"
  shows "bundle_server w =
           Return False (w\<lparr>stderr := stderr w @
             [''Error: core directory not found at '' @ str_path core_dir,
              ''This script must be run from the monorepo structure'']\<rparr>)"
  using assms by (simp add: bundle_server_def print_err_def)

theorem missing_core_witness:
  "\<not> path_exists (fs w_no_core) core_dir \<and>
   \<not> path_exists (fs w_no_core) target_dir \<and>
   bundle_server w_no_core =
     Return False (w_no_core\<lparr>stderr :=
       [''Error: core directory not found at core'',
        ''This script must be run from the monorepo structure'']\<rparr>)"
proof -
  have h: "\<not> path_exists (fs w_no_core) core_dir"
    by (simp add: w_no_core_def sdk_with_def path_exists_def paths)
  have t: "\<not> path_exists (fs w_no_core) target_dir"
    by (simp add: w_no_core_def sdk_with_def path_exists_def paths)
  have e: "stderr w_no_core = []" by (simp add: w_no_core_def)
  from missing_core_fails_without_mutation[OF h] h t e show ?thesis by (simp add: paths)
qed

text \<open>
  C5. When the core directory exists and the built artifact or the bin directory does not,
  \<open>bundle_server\<close> prints its diagnostic to the error stream and returns \<open>False\<close>: the
  two lines about the bundled server when the artifact is missing, and otherwise the line
  about the bin directory. The state it leaves differs from the state it found in the error
  stream only: nothing was copied and nothing was created.
\<close>

theorem missing_artifact_or_bin_fails_without_mutation:
  assumes "path_exists (fs w) core_dir"
    and "\<not> path_exists (fs w) bundled_server \<or> \<not> path_exists (fs w) bin_dir"
  shows "bundle_server w =
           Return False (w\<lparr>stderr := stderr w @
             (if \<not> path_exists (fs w) bundled_server
              then [''Error: Bundled server not found at '' @ str_path bundled_server,
                    ''Please run 'npm run build && npm run bundle:server' in core/'']
              else [''Error: bin directory not found at '' @ str_path bin_dir])\<rparr>)"
  using assms by (auto simp: bundle_server_def print_err_def)

theorem missing_artifact_or_bin_witness:
  "path_exists (fs w_no_artifact) core_dir \<and>
   \<not> path_exists (fs w_no_artifact) bundled_server \<and>
   bundle_server w_no_artifact =
     Return False (w_no_artifact\<lparr>stderr :=
       [''Error: Bundled server not found at core/dist/server/bundled.js'',
        ''Please run 'npm run build && npm run bundle:server' in core/'']\<rparr>) \<and>
   path_exists (fs w_no_bin) core_dir \<and>
   path_exists (fs w_no_bin) bundled_server \<and>
   \<not> path_exists (fs w_no_bin) bin_dir \<and>
   bundle_server w_no_bin =
     Return False (w_no_bin\<lparr>stderr := [''Error: bin directory not found at core/bin'']\<rparr>)"
proof -
  have a: "path_exists (fs w_no_artifact) core_dir"
    "\<not> path_exists (fs w_no_artifact) bundled_server"
    by (simp_all add: w_no_artifact_def world_of_def sdk_with_def path_exists_def paths)
  have b: "path_exists (fs w_no_bin) core_dir" "path_exists (fs w_no_bin) bundled_server"
    "\<not> path_exists (fs w_no_bin) bin_dir"
    by (simp_all add: w_no_bin_def world_of_def sdk_with_def path_exists_def paths)
  have e: "stderr w_no_artifact = []" "stderr w_no_bin = []"
    by (simp_all add: w_no_artifact_def w_no_bin_def world_of_def)
  from missing_artifact_or_bin_fails_without_mutation[of w_no_artifact]
       missing_artifact_or_bin_fails_without_mutation[of w_no_bin] a b e
  show ?thesis by (simp add: paths)
qed

text \<open>
  C6, as the code has it. The three checks do not make a run succeed, and a run that
  succeeds does not make the next one succeed. In \<open>w_target_bin_file\<close> the core
  directory, the artifact (a regular file) and the bin directory (a directory) are in
  place, nothing is read-only, and a regular file stands at \<^verbatim>\<open>pmxt/_server/bin\<close>: the
  first run copies the artifact and then raises \<^verbatim>\<open>NotADirectoryError\<close> in
  \<^verbatim>\<open>shutil.rmtree\<close>, and the second run, started in the state the first one left, raises
  it again. In \<open>mw_ro_artifact\<close>, a fresh checkout whose artifact
  \<^verbatim>\<open>core/dist/server/bundled.js\<close> is read-only, the first run returns \<open>True\<close> and leaves
  a read-only copy (\<^verbatim>\<open>shutil.copy\<close> copies the mode); the second run, of a process that
  is not privileged, cannot open that copy for writing and raises \<^verbatim>\<open>PermissionError\<close>,
  having changed nothing but the output stream.
\<close>

theorem second_run_counterexample:
  "path_exists (fs w_target_bin_file) core_dir \<and>
   path_exists (fs w_target_bin_file) bundled_server \<and>
   path_exists (fs w_target_bin_file) bin_dir \<and>
   bundle_server_m (with_modes w_target_bin_file []) =
     Raises NotADirectoryError (with_modes w_target_bin_file_failed []) \<and>
   bundle_server_m (with_modes w_target_bin_file_failed []) =
     Raises NotADirectoryError
       (with_modes (w_target_bin_file_failed\<lparr>stdout := progress @ progress\<rparr>) []) \<and>
   path_exists (fs (plain mw_ro_artifact)) core_dir \<and>
   path_exists (fs (plain mw_ro_artifact)) bundled_server \<and>
   path_exists (fs (plain mw_ro_artifact)) bin_dir \<and>
   bundle_server_m mw_ro_artifact = Returns True mw_ro_artifact_done \<and>
   bundle_server_m mw_ro_artifact_done = Raises PermissionError mw_ro_artifact_refused"
  by (simp add: w_target_bin_file_def w_target_bin_file_failed_def mw_ro_artifact_def
        mw_ro_artifact_done_def mw_ro_artifact_refused_def w_fresh_def w_fresh_done_def
        eval_m_defs eval_defs)

text \<open>
  C6, amended: if a run returns \<open>True\<close> (the three checks have passed then), and before
  that run the artifact and every directory at or below \<^verbatim>\<open>core/bin\<close> carried the owner's
  write permission, or else the process is privileged, then a second run started in the
  state the first one left also returns \<open>True\<close>, and the file system after the second run
  shows at every path what it showed after the first: the destination layout is the same,
  and so is everything else. Files below \<^verbatim>\<open>core/bin\<close> may be read-only.
\<close>

theorem second_run_changes_nothing:
  assumes run: "bundle_server_m mw = Returns True mw1"
    and modes: "privileged mw \<or>
                (bundled_server \<notin> set (read_only mw) \<and>
                 (\<forall>q\<in>set (read_only mw). prefix bin_dir q \<longrightarrow> \<not> is_dir (fs (plain mw)) q))"
  shows "\<exists>mw2. bundle_server_m mw1 = Returns True mw2 \<and>
           (\<forall>q. entry_at (fs (plain mw2)) q = entry_at (fs (plain mw1)) q)"
proof -
  let ?t = "fs (plain mw1)" and ?M = "read_only mw1" and ?priv = "privileged mw1"
  let ?V = "entry_at (fs (plain mw))" and ?W = "entry_at (fs (plain mw1))"
  let ?tb = "target_dir @ [''bin'']" and ?sb = "server_target @ [''bundled.js'']"
  let ?init = "target_dir @ [''__init__.py'']"
  let ?d = "copy_dst bundled_server ?sb ?W"
  note R = bundle_server_m_run[OF run]
  note ok = bundle_server_True(1)[OF R(1)] and v = bundle_server_True(2)[OF R(1)]
  note F = v_bundle_fixed[OF ok v]
  have priv: "?priv = privileged mw" by (rule R(2))
  from F(1) have chk: "path_exists ?t core_dir" "path_exists ?t bundled_server"
      "path_exists ?t bin_dir"
    and o2: "ok_mkdir server_target (view1 ?W)"
    and o3: "ok_copy bundled_server ?sb (view2 ?W)"
    and o5: "view4 ?W bin_dir = Some Directory"
    by (simp_all add: ok_bundle_def path_exists_iff)
  \<comment> \<open>the two directories are there\<close>
  have w_target: "?W target_dir = Some Directory" using view1_target[of ?W] by (simp add: F(3))
  have w_server: "?W server_target = Some Directory"
    using view2_server[OF o2] by (simp add: F(4))
  have m1: "mkdir_m ?priv target_dir True True (?t, ?M) = Inr (?t, ?M)"
    by (rule mkdir_m_noop[OF w_target])
  have m2: "mkdir_m ?priv server_target False True (?t, ?M) = Inr (?t, ?M)"
    by (rule mkdir_m_noop[OF w_server])
  \<comment> \<open>the artifact is copied over its copy\<close>
  from o3 have "ok_copy bundled_server ?sb ?W" by (simp add: F(4))
  from shutil_copy_total[OF this] obtain g3 where
    p3: "shutil_copy bundled_server ?sb ?t = Inr g3" by blast
  from shutil_copy_view[OF p3] have "entry_at g3 = v_copy bundled_server ?sb ?W" by simp
  also have "\<dots> = view3 ?W" by (simp add: view3_def F(4))
  finally have v3: "entry_at g3 = ?W" by (simp add: F(5))
  have "v_copy bundled_server ?sb ?W ?d \<noteq> None"
    by (simp add: v_copy_def graft_def leaf_def)
  moreover have "v_copy bundled_server ?sb ?W = ?W"
    using F(5) by (simp add: view3_def F(4))
  ultimately have "?W ?d \<noteq> None" by simp
  then have e3: "path_exists ?t ?d" by (simp add: path_exists_iff)
  have art: "privileged mw \<or> bundled_server \<notin> set (read_only mw)" using modes by blast
  have w3: "may_write ?priv ?M ?d"
    using R(4) art by (auto simp: may_write_def priv F(9))
  let ?M3 = "copymode bundled_server ?d ?M"
  have m3: "shutil_copy_m ?priv bundled_server ?sb (?t, ?M) = Inr (g3, ?M3)"
    by (rule shutil_copy_m_overwrite[OF p3 e3 w3])
  have M3: "set ?M3 \<subseteq> set ?M \<union> {?d}" by (rule copymode_subset)
  have d_apart: "\<not> prefix ?tb ?d" "?d \<noteq> target_dir"
    by (simp_all add: copy_dst_def name_def paths)
  \<comment> \<open>the copy of the bin tree is removed\<close>
  have w_bin: "?W (?tb @ r) = ?V (bin_dir @ r)" for r
    using post_bin[of ?V r] by (simp add: v)
  from ok have "?V bin_dir = Some Directory" by (simp add: ok_bundle_iff)
  with w_bin[of "[]"] have w_tb: "?W ?tb = Some Directory" by simp
  then have e4: "path_exists g3 ?tb" by (simp add: path_exists_iff v3)
  from w_tb have "ok_rm ?tb (entry_at g3)" by (simp add: ok_rm_def v3)
  from rm_if_exists_total[OF this] e4 obtain g4 where
    p4: "shutil_rmtree ?tb g3 = Inr g4" by auto
  with e4 have "(if path_exists g3 ?tb then shutil_rmtree ?tb g3 else Inr g3) = Inr g4"
    by simp
  from rm_if_exists_view[OF this] w_tb have "entry_at g4 = graft ?tb absent ?W"
    by (simp add: v_rm_def v3)
  then have v4: "entry_at g4 = view4 ?W" by (simp add: F(6))
  have wt: "may_write ?priv ?M target_dir" using R(3) by (simp add: priv)
  have wt3: "may_write ?priv ?M3 target_dir"
    using wt M3 d_apart(2) by (auto simp: may_write_def)
  have empty: "?priv" if q: "q \<in> set ?M3" "prefix ?tb q" "has_entries g3 q" for q
  proof -
    from q(1,2) M3 d_apart(1) have "q \<in> set ?M" by auto
    from R(5)[OF this q(2)] obtain r where r: "q = ?tb @ r" "bin_dir @ r \<in> set (read_only mw)"
      by blast
    from has_entries_Directory[OF q(3)] have "?W (?tb @ r) = Some Directory"
      by (simp add: v3 r(1))
    with w_bin[of r] have "is_dir (fs (plain mw)) (bin_dir @ r)" by (simp add: is_dir_iff)
    with r(2) modes show ?thesis by (auto simp: priv)
  qed
  let ?M4 = "forget ?tb ?M3"
  have wt3p: "may_write ?priv ?M3 (parent ?tb)" using wt3 by simp
  have m4: "shutil_rmtree_m ?priv ?tb (g3, ?M3) = Inr (g4, ?M4)"
    by (rule shutil_rmtree_m_total[OF p4 wt3p]) (rule empty)
  \<comment> \<open>and copied again\<close>
  have fresh: "entry_at g4 ?tb = None" "?tb \<noteq> []" "entry_at g4 (parent ?tb) = Some Directory"
    by (simp_all add: v4 view4_bin view4_target)
  from o5 have "entry_at g4 bin_dir = Some Directory" by (simp add: v4)
  with shutil_copytree_fresh(1)[OF fresh, of bin_dir] obtain g5 where
    p5: "shutil_copytree bin_dir ?tb g4 = Inr g5" by blast
  from shutil_copytree_fresh(2)[OF fresh p5] have "entry_at g5 = view5 ?W"
    by (simp add: view5_def v4)
  then have v5: "entry_at g5 = ?W" by (simp add: F(7))
  have wt4: "may_write ?priv ?M4 (parent ?tb)"
    using wt3 forget_subset[of ?tb ?M3] by (auto simp: may_write_def)
  let ?M5 = "forget ?tb (forget ?tb ?M4) @ copystat_tree bin_dir ?tb ?M4"
  have m5: "shutil_copytree_m ?priv bin_dir ?tb (g4, ?M4) = Inr (g5, ?M5)"
    using shutil_copytree_m_fresh[OF fresh, of ?priv bin_dir ?M4 g5 ?M5] p5 wt4 by blast
  \<comment> \<open>the sweep finds nothing to remove, and the marker is there\<close>
  from w_server have "entry_at g5 server_target = Some Directory" by (simp add: v5)
  from sweep_dir[OF this] obtain items where it: "iterdir server_target g5 = Inr items"
    by blast
  have "\<forall>item\<in>set items. exempt (name item)"
  proof
    fix item assume "item \<in> set items"
    from iterdir_names[OF it this] obtain n where
      n: "item = server_target @ [n]" "entry_at g5 (server_target @ [n]) \<noteq> None" by blast
    from n(2) have "v_bundle ?V (server_target @ [n]) \<noteq> None" by (simp add: v5 v)
    with post_swept[of n ?V] have "exempt n" by blast
    with n(1) show "exempt (name item)" by (simp add: name_def)
  qed
  from sweep_m_exempt[OF this] have m6: "sweep_m ?priv items (g5, ?M5) = Inr (g5, ?M5)" .
  have "v_bundle ?V ?init \<noteq> None" by (simp add: post_init split: option.splits)
  then have "entry_at g5 ?init \<noteq> None" by (simp add: v5 v)
  from touch_m_exists[OF this] have m7: "touch_m ?priv ?init (g5, ?M5) = Inr (g5, ?M5)" .
  let ?mw2 = "leave mw1
       (print_out (''Copying bin from '' @ str_path bin_dir @ '' to ''
                 @ str_path ?tb @ ''...'')
         (print_out (''Copying bundled server from '' @ str_path bundled_server @ ''...'')
           (plain mw1))) (g5, ?M5)"
  have "bundle_server_m mw1 = Returns True ?mw2"
    unfolding bundle_server_m_def Let_def
    using chk m1 m2 m3 e4 m4 m5 it m6 m7 by simp
  moreover have "entry_at (fs (plain ?mw2)) = ?W" by (simp add: v5)
  ultimately show ?thesis by metis
qed

theorem second_run_witness:
  "bundle_server_m mw_ro_launcher = Returns True mw_ro_launcher_done \<and>
   \<not> privileged mw_ro_launcher \<and>
   read_only mw_ro_launcher = [bin_dir @ [''pmxt-server'']] \<and>
   \<not> is_dir (fs (plain mw_ro_launcher)) (bin_dir @ [''pmxt-server'']) \<and>
   (\<exists>mw2. bundle_server_m mw_ro_launcher_done = Returns True mw2 \<and>
          (\<forall>q. entry_at (fs (plain mw2)) q = entry_at (fs (plain mw_ro_launcher_done)) q))"
proof -
  have run: "bundle_server_m mw_ro_launcher = Returns True mw_ro_launcher_done"
    by (simp add: mw_ro_launcher_def mw_ro_launcher_done_def w_fresh_def w_fresh_done_def
          eval_m_defs eval_defs)
  have modes: "privileged mw_ro_launcher \<or>
     (bundled_server \<notin> set (read_only mw_ro_launcher) \<and>
      (\<forall>q\<in>set (read_only mw_ro_launcher).
         prefix bin_dir q \<longrightarrow> \<not> is_dir (fs (plain mw_ro_launcher)) q))"
    by (simp add: mw_ro_launcher_def w_fresh_def eval_m_defs eval_defs)
  have "\<not> privileged mw_ro_launcher"
    "read_only mw_ro_launcher = [bin_dir @ [''pmxt-server'']]"
    "\<not> is_dir (fs (plain mw_ro_launcher)) (bin_dir @ [''pmxt-server''])"
    by (simp_all add: mw_ro_launcher_def w_fresh_def eval_m_defs eval_defs)
  with second_run_changes_nothing[OF run modes] run show ?thesis by blast
qed

text \<open>
  C7. The process started without arguments exits with status 0 exactly when
  \<open>bundle_server\<close> returns \<open>True\<close>, and with status 1 when the core directory, the
  artifact or the bin directory is missing.
\<close>

theorem exit_status:
  "(fst (main w) = SystemExit 0 \<longleftrightarrow> (\<exists>w'. bundle_server w = Return True w')) \<and>
   (\<not> path_exists (fs w) core_dir \<or> \<not> path_exists (fs w) bundled_server \<or>
    \<not> path_exists (fs w) bin_dir \<longrightarrow> fst (main w) = SystemExit 1)"
proof
  show "fst (main w) = SystemExit 0 \<longleftrightarrow> (\<exists>w'. bundle_server w = Return True w')"
    by (cases "bundle_server w") (auto simp: main_def)
  show "\<not> path_exists (fs w) core_dir \<or> \<not> path_exists (fs w) bundled_server \<or>
    \<not> path_exists (fs w) bin_dir \<longrightarrow> fst (main w) = SystemExit 1"
    by (auto simp: main_def bundle_server_def)
qed

theorem exit_status_witness:
  "fst (main w_fresh) = SystemExit 0 \<and> fst (main w_no_core) = SystemExit 1 \<and>
   fst (main w_no_artifact) = SystemExit 1 \<and> fst (main w_no_bin) = SystemExit 1"
proof -
  have ok: "\<exists>w'. bundle_server w_fresh = Return True w'" using run_fresh by blast
  have a: "\<not> path_exists (fs w_no_core) core_dir"
    by (simp add: w_no_core_def sdk_with_def path_exists_def paths)
  have b: "\<not> path_exists (fs w_no_artifact) bundled_server"
    by (simp add: w_no_artifact_def world_of_def sdk_with_def path_exists_def paths)
  have c: "\<not> path_exists (fs w_no_bin) bin_dir"
    by (simp add: w_no_bin_def world_of_def sdk_with_def path_exists_def paths)
  from exit_status[of w_fresh] exit_status[of w_no_core] exit_status[of w_no_artifact]
       exit_status[of w_no_bin] ok a b c
  show ?thesis by blast
qed

text \<open>
  C8, as the code has it. \<^verbatim>\<open>touch()\<close> leaves an existing file as it is, so the marker is
  not always empty: in \<open>w_prior\<close> the file \<^verbatim>\<open>pmxt/_server/__init__.py\<close> holds the text
  \<^verbatim>\<open>x = 1\<close>, the run returns \<open>True\<close>, and the file still holds that text.
\<close>

theorem marker_counterexample:
  "entry_at (fs w_prior) (target_dir @ [''__init__.py'']) = Some (Reg ''x = 1'') \<and>
   bundle_server w_prior = Return True w_prior_done \<and>
   entry_at (fs w_prior_done) (target_dir @ [''__init__.py'']) = Some (Reg ''x = 1'')"
  by (simp add: w_prior_def w_prior_done_def eval_defs)

text \<open>
  C8, amended: after a run that returned \<open>True\<close> there is an entry at
  \<^verbatim>\<open>pmxt/_server/__init__.py\<close>. If nothing was at that path before the run, it is an empty
  regular file; if something was there, it is what it was before, with the same content
  (creating the marker is a no-op when it exists).
\<close>

theorem marker_after_run:
  assumes "bundle_server w = Return True w'"
  shows "entry_at (fs w') (target_dir @ [''__init__.py'']) =
           (case entry_at (fs w) (target_dir @ [''__init__.py'']) of
              None \<Rightarrow> Some (Reg []) | Some e \<Rightarrow> Some e)"
  unfolding bundle_server_True(2)[OF assms] by (rule post_init)

theorem marker_after_run_witness:
  "bundle_server w_fresh = Return True w_fresh_done \<and>
   entry_at (fs w_fresh) (target_dir @ [''__init__.py'']) = None \<and>
   entry_at (fs w_fresh_done) (target_dir @ [''__init__.py'']) = Some (Reg []) \<and>
   bundle_server w_prior = Return True w_prior_done \<and>
   entry_at (fs w_prior) (target_dir @ [''__init__.py'']) = Some (Reg ''x = 1'') \<and>
   entry_at (fs w_prior_done) (target_dir @ [''__init__.py'']) = Some (Reg ''x = 1'')"
proof -
  have a: "entry_at (fs w_fresh) (target_dir @ [''__init__.py'']) = None"
    by (simp add: w_fresh_def eval_defs)
  have b: "entry_at (fs w_prior) (target_dir @ [''__init__.py'']) = Some (Reg ''x = 1'')"
    by (simp add: w_prior_def eval_defs)
  from marker_after_run[OF run_fresh] marker_after_run[OF run_prior] a b run_fresh run_prior
  show ?thesis by simp
qed

text \<open>
  C9. The three checks of lines 24 to 41 test that a path exists, not what is there. In the
  state \<open>w_artifact_dir\<close> a directory stands at \<^verbatim>\<open>core/dist/server/bundled.js\<close>: the checks
  pass, the target and its \<^verbatim>\<open>server\<close> subdirectory are created, and \<^verbatim>\<open>shutil.copy\<close> raises
  \<^verbatim>\<open>IsADirectoryError\<close>. In the state \<open>w_bin_file\<close> a regular file stands at \<^verbatim>\<open>core/bin\<close>: the
  checks pass, the artifact is copied into the new target, and \<^verbatim>\<open>shutil.copytree\<close> raises
  \<^verbatim>\<open>NotADirectoryError\<close>. Neither run returns \<open>False\<close>.
\<close>

theorem kind_is_not_checked:
  "path_exists (fs w_artifact_dir) core_dir \<and>
   is_dir (fs w_artifact_dir) bundled_server \<and>
   path_exists (fs w_artifact_dir) bin_dir \<and>
   \<not> path_exists (fs w_artifact_dir) target_dir \<and>
   bundle_server w_artifact_dir = Raise IsADirectoryError w_artifact_dir_failed \<and>
   is_dir (fs w_artifact_dir_failed) server_target \<and>
   path_exists (fs w_bin_file) core_dir \<and>
   path_exists (fs w_bin_file) bundled_server \<and>
   entry_at (fs w_bin_file) bin_dir = Some (Reg ''b'') \<and>
   \<not> path_exists (fs w_bin_file) target_dir \<and>
   bundle_server w_bin_file = Raise NotADirectoryError w_bin_file_failed \<and>
   entry_at (fs w_bin_file_failed) (server_target @ [''bundled.js'']) = Some (Reg ''js'')"
  by (simp add: w_artifact_dir_def w_artifact_dir_failed_def w_bin_file_def
        w_bin_file_failed_def eval_defs)

text \<open>
  C10. The sweep exempts \<^verbatim>\<open>__pycache__\<close> by name, whatever its kind: a regular file of that
  name in the \<^verbatim>\<open>server\<close> subdirectory is still there, with the same content, after a run
  that returned \<open>True\<close>. In \<open>w_prior\<close> there is such a file, and after the run the
  subdirectory holds two regular files, the artifact and \<^verbatim>\<open>__pycache__\<close>.
\<close>

theorem pycache_file_survives:
  assumes "bundle_server w = Return True w'"
    and "entry_at (fs w) (server_target @ [''__pycache__'']) = Some (Reg c)"
  shows "entry_at (fs w') (server_target @ [''__pycache__'']) = Some (Reg c)"
  using post_pycache[of "fs w" "[]"] assms(2)
  by (simp add: bundle_server_True(2)[OF assms(1)])

theorem pycache_file_survives_witness:
  "bundle_server w_prior = Return True w_prior_done \<and>
   entry_at (fs w_prior) (server_target @ [''__pycache__'']) = Some (Reg ''c'') \<and>
   entry_at (fs w_prior_done) (server_target @ [''__pycache__'']) = Some (Reg ''c'') \<and>
   entry_at (fs w_prior_done) (server_target @ [''bundled.js'']) = Some (Reg ''js'')"
proof -
  have a: "entry_at (fs w_prior) (server_target @ [''__pycache__'']) = Some (Reg ''c'')"
    by (simp add: w_prior_def eval_defs)
  have b: "entry_at (fs w_prior_done) (server_target @ [''bundled.js'']) = Some (Reg ''js'')"
    by (simp add: w_prior_done_def eval_defs)
  from pycache_file_survives[OF run_prior a] a b run_prior show ?thesis by simp
qed

end
